theory Spec2Isabelle
  imports Complex_Main
begin

section \<open>Sunday Pub Walks: the duplicate-avoidance core\<close>

text \<open>
  A shallow embedding of \<^verbatim>\<open>src/services/ai-walk-generator.js\<close> (\<open>getUsedPubs\<close>,
  \<open>generateWalk\<close>, \<open>formatWalkData\<close>, \<open>generateBestWalk\<close>),
  \<^verbatim>\<open>src/services/instagram.js\<close> (\<open>postToInstagram\<close>, \<open>logPost\<close>) and
  \<^verbatim>\<open>src/index.js\<close> (\<open>publishSundayWalkPost\<close>).

  Asynchronous calls run one after the other in a single process, so every function
  takes the state of the world and returns the new one. The outside of the program (the
  AI model, the image model, the weather service, Instagram, the clock, the environment
  variables, the health of the file system) is a record of collaborators \<open>env\<close>; the
  JSON functions of the JavaScript runtime are a record \<open>codec\<close>. A \<open>throw\<close> is the
  \<open>Inl\<close> branch of a sum.
\<close>

subsection \<open>JavaScript values read back from JSON\<close>

text \<open>
  What \<open>JSON.parse\<close> returns. \<open>undefined\<close> (a property that is not there) is \<open>None\<close>
  of \<open>jsval option\<close>. Numbers are the rationals the doubles stand for; \<open>NaN\<close> cannot
  come out of \<open>JSON.parse\<close>.
\<close>

datatype jsval =
    JNull
  | JBool bool
  | JNum rat
  | JStr string
  | JArr "jsval list"
  | JObj "(string \<times> jsval) list"

datatype error =
    MaxAttempts
  | TypeError
  | MissingField string
  | InvalidCoordinates
  | TooFewHighlights
  | TooFewDirections
  | NoWalks
  | NoCredentials
  | Thrown string

text \<open>
  \<open>MaxAttempts\<close> is \<open>'Failed to generate a unique pub after maximum attempts'\<close>,
  \<open>MissingField f\<close> is \<open>'Generated walk missing required field: f'\<close>,
  \<open>NoWalks\<close> is \<open>'Failed to generate any walks'\<close>, \<open>NoCredentials\<close> is
  \<open>'Instagram credentials not configured...'\<close>, and \<open>Thrown m\<close> is whatever a
  collaborator or the runtime throws (a transport error, a \<open>SyntaxError\<close> of
  \<open>JSON.parse\<close>, a file-system error).
\<close>

text \<open>\<open>Boolean(v)\<close>, also the test of \<open>!v\<close>.\<close>

fun truthy :: "jsval option \<Rightarrow> bool" where
  "truthy None = False"
| "truthy (Some JNull) = False"
| "truthy (Some (JBool b)) = b"
| "truthy (Some (JNum n)) = (n \<noteq> 0)"
| "truthy (Some (JStr s)) = (s \<noteq> [])"
| "truthy (Some (JArr xs)) = True"
| "truthy (Some (JObj kvs)) = True"

text \<open>
  The comparison of \<open>Array.prototype.includes\<close> and of \<open>Set\<close>: primitives by value,
  arrays and objects by identity. Every array or object this program compares comes from
  a \<open>JSON.parse\<close> call of its own, so two of them are never the same object.
\<close>

fun sameValueZero :: "jsval \<Rightarrow> jsval \<Rightarrow> bool" where
  "sameValueZero JNull JNull = True"
| "sameValueZero (JBool a) (JBool b) = (a = b)"
| "sameValueZero (JNum a) (JNum b) = (a = b)"
| "sameValueZero (JStr a) (JStr b) = (a = b)"
| "sameValueZero x y = False"

text \<open>\<open>xs.includes(v)\<close> on an array that holds no \<open>undefined\<close>.\<close>

fun arrIncludes :: "jsval list \<Rightarrow> jsval option \<Rightarrow> bool" where
  "arrIncludes xs None = False"
| "arrIncludes xs (Some v) = list_ex (\<lambda>x. sameValueZero x v) xs"

text \<open>\<open>[...new Set(xs)]\<close>: the first occurrence of every value, in insertion order.\<close>

definition setAdd :: "jsval list \<Rightarrow> jsval \<Rightarrow> jsval list" where
  "setAdd acc x = (if list_ex (\<lambda>y. sameValueZero y x) acc then acc else acc @ [x])"

definition uniq :: "jsval list \<Rightarrow> jsval list" where
  "uniq xs = foldl setAdd [] xs"

text \<open>\<open>p.pubName\<close>: a \<open>TypeError\<close> on \<open>null\<close>, \<open>undefined\<close> on every other value that
  is not an object with that key.\<close>

fun pubNameOf :: "jsval \<Rightarrow> error + jsval option" where
  "pubNameOf JNull = Inl TypeError"
| "pubNameOf (JObj kvs) = Inr (map_of kvs ''pubName'')"
| "pubNameOf v = Inr None"

subsection \<open>Text of the log file\<close>

definition newline :: char where
  "newline = CHR 0x0A"

text \<open>
  A string is the UTF-8 bytes of the text. \<open>whiteSpace\<close> is what
  \<open>String.prototype.trim\<close> strips, each character as its bytes: the white space and
  the line terminators of ECMAScript, which are U+0009 to U+000D, U+0020, U+00A0,
  U+1680, U+2000 to U+200A, U+2028, U+2029, U+202F, U+205F, U+3000 and U+FEFF.
\<close>

definition whiteSpace :: "string list" where
  "whiteSpace =
     [[CHR 0x09], [CHR 0x0A], [CHR 0x0B], [CHR 0x0C], [CHR 0x0D], [CHR 0x20],
      [CHR 0xC2, CHR 0xA0],
      [CHR 0xE1, CHR 0x9A, CHR 0x80],
      [CHR 0xE2, CHR 0x80, CHR 0x80], [CHR 0xE2, CHR 0x80, CHR 0x81],
      [CHR 0xE2, CHR 0x80, CHR 0x82], [CHR 0xE2, CHR 0x80, CHR 0x83],
      [CHR 0xE2, CHR 0x80, CHR 0x84], [CHR 0xE2, CHR 0x80, CHR 0x85],
      [CHR 0xE2, CHR 0x80, CHR 0x86], [CHR 0xE2, CHR 0x80, CHR 0x87],
      [CHR 0xE2, CHR 0x80, CHR 0x88], [CHR 0xE2, CHR 0x80, CHR 0x89],
      [CHR 0xE2, CHR 0x80, CHR 0x8A],
      [CHR 0xE2, CHR 0x80, CHR 0xA8], [CHR 0xE2, CHR 0x80, CHR 0xA9],
      [CHR 0xE2, CHR 0x80, CHR 0xAF],
      [CHR 0xE2, CHR 0x81, CHR 0x9F],
      [CHR 0xE3, CHR 0x80, CHR 0x80],
      [CHR 0xEF, CHR 0xBB, CHR 0xBF]]"

definition startsWith :: "string \<Rightarrow> string \<Rightarrow> bool" where
  "startsWith s p = (p \<noteq> [] \<and> take (length p) s = p)"

text \<open>Dropping the leading characters of \<open>s\<close> that are among \<open>ps\<close>.\<close>

function stripStart :: "string list \<Rightarrow> string \<Rightarrow> string" where
  "stripStart ps s =
     (case find (startsWith s) ps of
        None \<Rightarrow> s
      | Some p \<Rightarrow> stripStart ps (drop (length p) s))"
  by pat_completeness auto
termination
proof (relation "measure (\<lambda>(ps, s). length s)")
  fix ps :: "string list" and s p :: string
  assume "find (startsWith s) ps = Some p"
  then have "startsWith s p" by (auto simp: find_Some_iff)
  then have "p \<noteq> []" and "take (length p) s = p" by (simp_all add: startsWith_def)
  then have "s \<noteq> []" by auto
  with \<open>p \<noteq> []\<close> show "((ps, drop (length p) s), (ps, s)) \<in> measure (\<lambda>(ps, s). length s)"
    by simp
qed simp

declare stripStart.simps [simp del]

text \<open>\<open>trimStart\<close>, \<open>trimEnd\<close> and \<open>trim\<close> of \<open>String.prototype\<close>.\<close>

definition trimStart :: "string \<Rightarrow> string" where
  "trimStart s = stripStart whiteSpace s"

definition trimEnd :: "string \<Rightarrow> string" where
  "trimEnd s = rev (stripStart (map rev whiteSpace) (rev s))"

definition trim :: "string \<Rightarrow> string" where
  "trim s = trimEnd (trimStart s)"

text \<open>\<open>s.split('\n')\<close>: the empty string gives one empty line.\<close>

fun split_nl :: "string \<Rightarrow> string list" where
  "split_nl [] = [[]]"
| "split_nl (c # cs) =
     (if c = newline then [] # split_nl cs
      else (c # hd (split_nl cs)) # tl (split_nl cs))"

text \<open>Running a throwing function over a list stops at the first throw.\<close>

fun mapE :: "('a \<Rightarrow> error + 'b) \<Rightarrow> 'a list \<Rightarrow> error + 'b list" where
  "mapE f [] = Inr []"
| "mapE f (x # xs) =
     (case f x of Inl e \<Rightarrow> Inl e
      | Inr y \<Rightarrow> (case mapE f xs of Inl e \<Rightarrow> Inl e | Inr ys \<Rightarrow> Inr (y # ys)))"

subsection \<open>The runtime and the collaborators\<close>

record codec =
  JSON_parse :: "string \<Rightarrow> jsval option"
  JSON_stringify :: "jsval \<Rightarrow> string"

text \<open>\<open>JSON.parse(line)\<close>: \<open>None\<close> of the runtime's function is its \<open>SyntaxError\<close>.\<close>

definition parseLine :: "codec \<Rightarrow> string \<Rightarrow> error + jsval" where
  "parseLine J line =
     (case JSON_parse J line of None \<Rightarrow> Inl (Thrown ''SyntaxError'') | Some v \<Rightarrow> Inr v)"

record coords =
  lat :: "rat option"
  lng :: "rat option"

text \<open>
  The object the AI model replies with, after \<open>JSON.parse\<close>. The pub name, which the
  membership test, the log entry and the used pubs are about, is whatever JSON value the
  reply holds under \<open>end_pub_name\<close>, or missing (\<open>None\<close>): the program tests it for
  truthiness only. The other fields are either missing or have the type of the prompt's
  example; a title that is not a string makes \<open>toLowerCase\<close> throw the \<open>TypeError\<close>
  that a missing title throws, so \<open>None\<close> stands for both. Fields the core never reads
  (the pub's handle, terrain, difficulty, the friendliness flags, ...) are left out.
\<close>

record walk_data =
  walk_title :: "string option"
  area :: "string option"
  area_short :: "string option"
  start_point :: "string option"
  end_pub_name :: "jsval option"
  distance_km :: "rat option"
  duration_minutes :: "rat option"
  highlights :: "string list option"
  landmarks_for_prompt :: "string list option"
  location_coords :: "coords option"
  directions :: "string list option"

text \<open>\<open>{ id, slug, ...walkData }\<close>; the field \<open>id\<close> is \<open>walk_id\<close> here.\<close>

record walk =
  walk_id :: string
  slug :: string
  data :: walk_data

record weather =
  summary :: string
  tip :: string

record image =
  url :: string
  localPath :: string

text \<open>The \<open>response.data\<close> of the publish call; \<open>id\<close> may be missing.\<close>

record publish_result =
  post_id :: "string option"

text \<open>
  One run's collaborators. \<open>ai n used\<close> is the reply to the \<open>n\<close>-th call the process
  makes to the AI model (counted from 0), with the exclusion list \<open>used\<close> in its prompt,
  already through \<open>JSON.parse\<close>; an \<open>Inl\<close> is a transport error, a reply that does
  not parse, or one that parses to \<open>null\<close>, of which no property can be read.
  \<open>fsReadable\<close> is false when reading an existing log fails, \<open>fsWritable\<close> is false
  when \<open>mkdir\<close> or \<open>appendFile\<close> on the log fails.
\<close>

record env =
  OPENAI_API_KEY :: "string option"
  NODE_ENV :: "string option"
  INSTAGRAM_ACCESS_TOKEN :: "string option"
  INSTAGRAM_ACCOUNT_ID :: "string option"
  ai :: "nat \<Rightarrow> jsval list \<Rightarrow> error + walk_data"
  now :: nat
  isoNow :: string
  fsReadable :: bool
  fsWritable :: bool
  fetchWeatherSummary :: "walk \<Rightarrow> weather"
  buildCaption :: "walk \<Rightarrow> weather \<Rightarrow> string"
  generateIllustration :: "walk \<Rightarrow> weather \<Rightarrow> error + image"
  writeCaptionFile :: "string \<Rightarrow> string \<Rightarrow> error option"
  createMediaContainer :: "string \<Rightarrow> string \<Rightarrow> error + string"
  publishMediaContainer :: "string \<Rightarrow> error + publish_result"

text \<open>
  The state the program changes: the content of \<^verbatim>\<open>logs/posts.jsonl\<close> (\<open>None\<close> when
  there is no file), the module variable \<open>openaiClient\<close>, and three records of what has
  happened: the number of calls made to the AI model, the posts that are live on
  Instagram (image URL and caption), and the caption files written in development mode.
\<close>

record world =
  logFile :: "string option"
  openaiClient :: bool
  aiCalls :: nat
  published :: "(string \<times> string) list"
  captionFiles :: "(string \<times> string) list"

text \<open>\<open>!!process.env.X\<close>: set and not empty.\<close>

definition isSet :: "string option \<Rightarrow> bool" where
  "isSet v = (case v of None \<Rightarrow> False | Some s \<Rightarrow> s \<noteq> [])"

subsection \<open>Reading the log: \<open>getUsedPubs\<close>\<close>

text \<open>\<open>fs.readFile(logPath, 'utf-8')\<close>.\<close>

definition readFile :: "env \<Rightarrow> world \<Rightarrow> error + string" where
  "readFile E w =
     (case logFile w of
        None \<Rightarrow> Inl (Thrown ''ENOENT'')
      | Some content \<Rightarrow> if fsReadable E then Inr content else Inl (Thrown ''EACCES''))"

text \<open>The body of the \<open>try\<close> block of \<open>getUsedPubs\<close>.\<close>

definition readUsedPubs :: "codec \<Rightarrow> env \<Rightarrow> world \<Rightarrow> error + jsval list" where
  "readUsedPubs J E w =
     (case readFile E w of
        Inl e \<Rightarrow> Inl e
      | Inr content \<Rightarrow>
          (case mapE (parseLine J) (split_nl (trim content)) of
             Inl e \<Rightarrow> Inl e
           | Inr posts \<Rightarrow>
               (case mapE pubNameOf posts of
                  Inl e \<Rightarrow> Inl e
                | Inr names \<Rightarrow> Inr (uniq (map the (filter truthy names))))))"

text \<open>\<open>getUsedPubs\<close>: the \<open>catch\<close> turns every throw into the empty list.\<close>

definition getUsedPubs :: "codec \<Rightarrow> env \<Rightarrow> world \<Rightarrow> jsval list" where
  "getUsedPubs J E w = (case readUsedPubs J E w of Inl e \<Rightarrow> [] | Inr pubs \<Rightarrow> pubs)"

subsection \<open>Appending to the log: \<open>logPost\<close>\<close>

text \<open>A property whose value is \<open>undefined\<close> is left out by \<open>JSON.stringify\<close>.\<close>

definition valProp :: "string \<Rightarrow> jsval option \<Rightarrow> (string \<times> jsval) list" where
  "valProp k v = (case v of None \<Rightarrow> [] | Some x \<Rightarrow> [(k, x)])"

definition strProp :: "string \<Rightarrow> string option \<Rightarrow> (string \<times> jsval) list" where
  "strProp k v = (case v of None \<Rightarrow> [] | Some s \<Rightarrow> [(k, JStr s)])"

definition logEntry :: "env \<Rightarrow> walk \<Rightarrow> publish_result \<Rightarrow> jsval" where
  "logEntry E walk result =
     JObj ([(''timestamp'', JStr (isoNow E)), (''walkId'', JStr (walk_id walk))]
           @ strProp ''walkTitle'' (walk_title (data walk))
           @ [(''slug'', JStr (slug walk))]
           @ valProp ''pubName'' (end_pub_name (data walk))
           @ strProp ''area'' (area_short (data walk))
           @ strProp ''instagramPostId'' (post_id result)
           @ [(''success'', JBool True)])"

text \<open>\<open>fs.appendFile\<close> creates the file when there is none.\<close>

definition appendFile :: "string option \<Rightarrow> string \<Rightarrow> string option" where
  "appendFile file text = Some ((case file of None \<Rightarrow> [] | Some content \<Rightarrow> content) @ text)"

text \<open>\<open>logPost\<close>: a failure of \<open>mkdir\<close> or \<open>appendFile\<close> is caught and only printed.\<close>

definition logPost :: "codec \<Rightarrow> env \<Rightarrow> walk \<Rightarrow> publish_result \<Rightarrow> world \<Rightarrow> world" where
  "logPost J E walk result w =
     (if fsWritable E
      then w\<lparr>logFile := appendFile (logFile w) (JSON_stringify J (logEntry E walk result) @ [newline])\<rparr>
      else w)"

subsection \<open>Validating a candidate: \<open>formatWalkData\<close>\<close>

definition truthyStr :: "string option \<Rightarrow> bool" where
  "truthyStr v = (case v of None \<Rightarrow> False | Some s \<Rightarrow> s \<noteq> [])"

definition truthyNum :: "rat option \<Rightarrow> bool" where
  "truthyNum v = (case v of None \<Rightarrow> False | Some n \<Rightarrow> n \<noteq> 0)"

text \<open>An array or an object is truthy, also when it is empty.\<close>

definition truthyObj :: "'a option \<Rightarrow> bool" where
  "truthyObj v = (case v of None \<Rightarrow> False | Some x \<Rightarrow> True)"

text \<open>
  The slug: \<open>toLowerCase()\<close>, every run of characters outside \<open>[a-z0-9]\<close> replaced by one
  dash, one dash removed at each end. On the bytes of the text: the bytes of a character
  beyond ASCII are all outside \<open>[a-z0-9]\<close>, and so are those of its lower case, with two
  exceptions that \<open>toLowerCase\<close> treats: the lower case of U+212A (the Kelvin sign) is
  \<open>k\<close>, and that of U+0130 is \<open>i\<close> followed by U+0307. Other characters beyond ASCII
  are left as they are, which gives the same slug.
\<close>

definition lowerAscii :: "char \<Rightarrow> char" where
  "lowerAscii c =
     (let n = (of_char c :: nat) in if 65 \<le> n \<and> n \<le> 90 then char_of (n + 32) else c)"

fun toLowerCase :: "string \<Rightarrow> string" where
  "toLowerCase (a # b # c # cs) =
     (if [a, b, c] = [CHR 0xE2, CHR 0x84, CHR 0xAA] then CHR ''k'' # toLowerCase cs
      else if [a, b] = [CHR 0xC4, CHR 0xB0]
      then CHR ''i'' # CHR 0xCC # CHR 0x87 # toLowerCase (c # cs)
      else lowerAscii a # toLowerCase (b # c # cs))"
| "toLowerCase [a, b] =
     (if [a, b] = [CHR 0xC4, CHR 0xB0] then [CHR ''i'', CHR 0xCC, CHR 0x87]
      else [lowerAscii a, lowerAscii b])"
| "toLowerCase [a] = [lowerAscii a]"
| "toLowerCase [] = []"

definition isAlnum :: "char \<Rightarrow> bool" where
  "isAlnum c =
     (let n = (of_char c :: nat) in (97 \<le> n \<and> n \<le> 122) \<or> (48 \<le> n \<and> n \<le> 57))"

function dashRuns :: "string \<Rightarrow> string" where
  "dashRuns [] = []"
| "dashRuns (c # cs) =
     (if isAlnum c then c # dashRuns cs
      else CHR ''-'' # dashRuns (dropWhile (\<lambda>d. \<not> isAlnum d) cs))"
  by pat_completeness auto
termination
  by (relation "measure length") (auto simp: le_imp_less_Suc length_dropWhile_le)

definition stripDash :: "string \<Rightarrow> string" where
  "stripDash s =
     (let t = (case s of [] \<Rightarrow> [] | c # cs \<Rightarrow> if c = CHR ''-'' then cs else s)
      in if t \<noteq> [] \<and> last t = CHR ''-'' then butlast t else t)"

definition slugify :: "string \<Rightarrow> string" where
  "slugify title = stripDash (dashRuns (toLowerCase title))"

fun decimal :: "nat \<Rightarrow> string" where
  "decimal n =
     (if n < 10 then [char_of (48 + n)]
      else decimal (n div 10) @ [char_of (48 + n mod 10)])"

declare decimal.simps [simp del]

text \<open>The fields of \<open>required\<close>, in the order of the source, each with its \<open>!walk[field]\<close>.\<close>

definition required :: "(string \<times> (walk_data \<Rightarrow> bool)) list" where
  "required =
     [(''walk_title'', \<lambda>d. truthyStr (walk_title d)),
      (''area'', \<lambda>d. truthyStr (area d)),
      (''area_short'', \<lambda>d. truthyStr (area_short d)),
      (''start_point'', \<lambda>d. truthyStr (start_point d)),
      (''end_pub_name'', \<lambda>d. truthy (end_pub_name d)),
      (''distance_km'', \<lambda>d. truthyNum (distance_km d)),
      (''duration_minutes'', \<lambda>d. truthyNum (duration_minutes d)),
      (''highlights'', \<lambda>d. truthyObj (highlights d)),
      (''landmarks_for_prompt'', \<lambda>d. truthyObj (landmarks_for_prompt d)),
      (''location_coords'', \<lambda>d. truthyObj (location_coords d)),
      (''directions'', \<lambda>d. truthyObj (directions d))]"

text \<open>
  \<open>formatWalkData\<close>. \<open>walkData.walk_title.toLowerCase()\<close> comes first and throws a
  \<open>TypeError\<close> when the title is missing; so does reading a property of a missing
  object.
\<close>

definition formatWalkData :: "env \<Rightarrow> walk_data \<Rightarrow> error + walk" where
  "formatWalkData E walkData =
     (case walk_title walkData of
        None \<Rightarrow> Inl TypeError
      | Some title \<Rightarrow>
          (let walk = \<lparr>walk_id = ''walk-'' @ decimal (now E), slug = slugify title, data = walkData\<rparr>
           in case find (\<lambda>(field, present). \<not> present walkData) required of
                Some (field, present) \<Rightarrow> Inl (MissingField field)
              | None \<Rightarrow>
                  (case location_coords walkData of
                     None \<Rightarrow> Inl TypeError
                   | Some c \<Rightarrow>
                       if \<not> truthyNum (lat c) \<or> \<not> truthyNum (lng c) then Inl InvalidCoordinates
                       else (case highlights walkData of
                               None \<Rightarrow> Inl TypeError
                             | Some hs \<Rightarrow>
                                 if length hs < 2 then Inl TooFewHighlights
                                 else (case directions walkData of
                                         None \<Rightarrow> Inl TypeError
                                       | Some ds \<Rightarrow>
                                           if length ds < 4 then Inl TooFewDirections
                                           else Inr walk)))))"

subsection \<open>The retry loop: \<open>generateWalk\<close>\<close>

text \<open>\<open>getOpenAIClient\<close>: the client is made on first use and kept.\<close>

definition getOpenAIClient :: "env \<Rightarrow> world \<Rightarrow> (error + unit) \<times> world" where
  "getOpenAIClient E w =
     (if \<not> openaiClient w
      then (if \<not> isSet (OPENAI_API_KEY E)
            then (Inl (Thrown ''OPENAI_API_KEY environment variable is not set''), w)
            else (Inr (), w\<lparr>openaiClient := True\<rparr>))
      else (Inr (), w))"

text \<open>
  \<open>generateWalk(maxAttempts, attempt)\<close>, both counters natural numbers. The used pubs are
  read first, then the client is fetched and the AI model called once; the call is
  counted whatever it returns. The \<open>catch\<close> of the source prints the error and throws it
  again, so every \<open>Inl\<close> passes through unchanged. The recursive call has the next
  attempt number, and none is made beyond \<open>maxAttempts\<close>: that is the termination
  argument.
\<close>

function generateWalk :: "codec \<Rightarrow> env \<Rightarrow> nat \<Rightarrow> nat \<Rightarrow> world \<Rightarrow> (error + walk) \<times> world" where
  "generateWalk J E maxAttempts attempt w =
     (if attempt > maxAttempts then (Inl MaxAttempts, w)
      else
        (let usedPubs = getUsedPubs J E w in
         case getOpenAIClient E w of
           (Inl e, w1) \<Rightarrow> (Inl e, w1)
         | (Inr u, w1) \<Rightarrow>
             (let w2 = w1\<lparr>aiCalls := Suc (aiCalls w1)\<rparr> in
              case ai E (aiCalls w1) usedPubs of
                Inl e \<Rightarrow> (Inl e, w2)
              | Inr walkData \<Rightarrow>
                  if arrIncludes usedPubs (end_pub_name walkData)
                  then generateWalk J E maxAttempts (attempt + 1) w2
                  else (formatWalkData E walkData, w2))))"
  by pat_completeness auto
termination
  by (relation "measure (\<lambda>(J, E, maxAttempts, attempt, w). Suc maxAttempts - attempt)") auto

declare generateWalk.simps [simp del]

subsection \<open>The selector: \<open>generateBestWalk\<close>\<close>

text \<open>
  The \<open>for\<close> loop of \<open>generateBestWalk\<close> with \<open>n\<close> rounds left: every round calls
  \<open>generateWalk()\<close> with its defaults (5 attempts, starting at 1); a walk is pushed, a
  throw is caught and printed. The pause between rounds changes nothing here.
\<close>

fun walkOptions :: "codec \<Rightarrow> env \<Rightarrow> nat \<Rightarrow> walk list \<Rightarrow> world \<Rightarrow> walk list \<times> world" where
  "walkOptions J E 0 walks w = (walks, w)"
| "walkOptions J E (Suc n) walks w =
     (case generateWalk J E 5 1 w of
        (Inr walk, w') \<Rightarrow> walkOptions J E n (walks @ [walk]) w'
      | (Inl e, w') \<Rightarrow> walkOptions J E n walks w')"

definition generateBestWalk :: "codec \<Rightarrow> env \<Rightarrow> nat \<Rightarrow> world \<Rightarrow> (error + walk) \<times> world" where
  "generateBestWalk J E options w =
     (case walkOptions J E options [] w of
        ([], w') \<Rightarrow> (Inl NoWalks, w')
      | (selectedWalk # rest, w') \<Rightarrow> (Inr selectedWalk, w'))"

subsection \<open>Publishing: \<open>postToInstagram\<close>\<close>

text \<open>
  \<open>postToInstagram({ imageUrl, imagePath, caption })\<close>: the credentials are checked, a
  media container is created, then published; the post is live once the second call has
  returned. The \<open>catch\<close> prints the error and throws it again.
\<close>

definition postToInstagram ::
  "env \<Rightarrow> string \<Rightarrow> string \<Rightarrow> string \<Rightarrow> world \<Rightarrow> (error + publish_result) \<times> world" where
  "postToInstagram E imageUrl imagePath caption w =
     (if \<not> isSet (INSTAGRAM_ACCESS_TOKEN E) \<or> \<not> isSet (INSTAGRAM_ACCOUNT_ID E)
      then (Inl NoCredentials, w)
      else
        (case createMediaContainer E imageUrl caption of
           Inl e \<Rightarrow> (Inl e, w)
         | Inr containerId \<Rightarrow>
             (case publishMediaContainer E containerId of
                Inl e \<Rightarrow> (Inl e, w)
              | Inr result \<Rightarrow> (Inr result, w\<lparr>published := published w @ [(imageUrl, caption)]\<rparr>))))"

subsection \<open>The pipeline: \<open>publishSundayWalkPost\<close>\<close>

text \<open>\<open>validateCaption\<close>: a caption over 2200 characters is only warned about.\<close>

definition validateCaption :: "string \<Rightarrow> bool" where
  "validateCaption caption = (\<not> length caption > 2200)"

text \<open>\<open>localPath.replace(/\.png$/i, '-caption.txt')\<close>.\<close>

definition captionPathOf :: "string \<Rightarrow> string" where
  "captionPathOf p =
     (let n = length p
      in if 4 \<le> n \<and> map lowerAscii (drop (n - 4) p) = ''.png''
         then take (n - 4) p @ ''-caption.txt'' else p)"

text \<open>The result of a run; its fields \<open>walk\<close> and \<open>image\<close> are \<open>r_walk\<close> and \<open>r_image\<close> here.\<close>

record run_result =
  success :: bool
  mode :: string
  r_walk :: string
  r_image :: "string option"
  postId :: "string option"

text \<open>
  \<open>publishSundayWalkPost\<close>. The title of a walk that passed \<open>formatWalkData\<close> is there;
  \<open>titleOf\<close> reads it.
\<close>

definition titleOf :: "walk \<Rightarrow> string" where
  "titleOf wk = (case walk_title (data wk) of None \<Rightarrow> [] | Some t \<Rightarrow> t)"

definition publishSundayWalkPost :: "codec \<Rightarrow> env \<Rightarrow> world \<Rightarrow> (error + run_result) \<times> world" where
  "publishSundayWalkPost J E w =
     (case generateBestWalk J E 1 w of
        (Inl e, w1) \<Rightarrow> (Inl e, w1)
      | (Inr wk, w1) \<Rightarrow>
          (let weather = fetchWeatherSummary E wk;
               caption = buildCaption E wk weather;
               isValid = validateCaption caption
           in case generateIllustration E wk weather of
                Inl e \<Rightarrow> (Inl e, w1)
              | Inr img \<Rightarrow>
                  if NODE_ENV E = Some ''development''
                  then
                    (let captionPath = captionPathOf (localPath img)
                     in case writeCaptionFile E captionPath caption of
                          Some e \<Rightarrow> (Inl e, w1)
                        | None \<Rightarrow>
                            (Inr \<lparr>success = True, mode = ''development'', r_walk = titleOf wk,
                                  r_image = Some (localPath img), postId = None\<rparr>,
                             w1\<lparr>captionFiles := captionFiles w1 @ [(captionPath, caption)]\<rparr>))
                  else
                    (case postToInstagram E (url img) (localPath img) caption w1 of
                       (Inl e, w2) \<Rightarrow> (Inl e, w2)
                     | (Inr result, w2) \<Rightarrow>
                         (let w3 = logPost J E wk result w2
                          in (Inr \<lparr>success = True, mode = ''production'', r_walk = titleOf wk,
                                    r_image = None, postId = post_id result\<rparr>, w3)))))"

subsection \<open>What the runtime's JSON functions are assumed to do\<close>

text \<open>
  A log entry is a flat object: different keys, each starting with a letter (JavaScript
  keeps such keys in the order they were written), every value a string or a boolean.
  \<open>codec_ok\<close> is what the program needs of \<open>JSON.stringify\<close> and \<open>JSON.parse\<close> on
  such objects: parsing the printed text gives the object back, and the text is one
  line that neither starts nor ends with white space (it starts with \<open>{\<close> and ends
  with \<open>}\<close>, and a line break inside a string is printed escaped).
\<close>
definition flatValue :: "jsval \<Rightarrow> bool" where
  "flatValue v = (case v of JStr s \<Rightarrow> True | JBool b \<Rightarrow> True | _ \<Rightarrow> False)"

definition plainKey :: "string \<Rightarrow> bool" where
  "plainKey k =
     (case k of
        [] \<Rightarrow> False
      | c # cs \<Rightarrow> (let n = (of_char c :: nat) in (65 \<le> n \<and> n \<le> 90) \<or> (97 \<le> n \<and> n \<le> 122)))"

definition flatEntry :: "jsval \<Rightarrow> bool" where
  "flatEntry v =
     (case v of
        JObj kvs \<Rightarrow>
          distinct (map fst kvs) \<and> list_all (\<lambda>kv. plainKey (fst kv)) kvs
          \<and> list_all (\<lambda>kv. flatValue (snd kv)) kvs
      | _ \<Rightarrow> False)"

definition cleanLine :: "string \<Rightarrow> bool" where
  "cleanLine l =
     (l \<noteq> [] \<and> newline \<notin> set l \<and> \<not> list_ex (startsWith l) whiteSpace
      \<and> \<not> list_ex (startsWith (rev l)) (map rev whiteSpace))"

definition codec_ok :: "codec \<Rightarrow> bool" where
  "codec_ok J =
     (\<forall>v. flatEntry v \<longrightarrow>
        JSON_parse J (JSON_stringify J v) = Some v \<and> cleanLine (JSON_stringify J v))"

subsection \<open>The log as a list of entries\<close>

text \<open>
  \<open>logText J es\<close> is the file after \<open>logPost\<close> has appended the entries \<open>es\<close>, one
  after the other, to a log that was not there. \<open>postLog\<close> is the entries read back
  (\<open>readAll\<close> of the specification: the parsed lines of the file, none when there is no
  file), and \<open>pubNames\<close> the \<open>pubName\<close> values that count (\<open>usedPubNames\<close> before
  duplicates are dropped).
\<close>
definition logText :: "codec \<Rightarrow> jsval list \<Rightarrow> string option" where
  "logText J es =
     (if es = [] then None else Some (concat (map (\<lambda>e. JSON_stringify J e @ [newline]) es)))"

fun joinLines :: "string list \<Rightarrow> string" where
  "joinLines [] = []"
| "joinLines [l] = l"
| "joinLines (l # ls) = l @ newline # joinLines ls"

definition postLog :: "codec \<Rightarrow> string option \<Rightarrow> jsval list option" where
  "postLog J file =
     (case file of
        None \<Rightarrow> Some []
      | Some content \<Rightarrow>
          (case mapE (parseLine J) (split_nl (trim content)) of
             Inl e \<Rightarrow> None
           | Inr posts \<Rightarrow> Some posts))"

definition pubProp :: "jsval \<Rightarrow> jsval option" where
  "pubProp p = (case pubNameOf p of Inl e \<Rightarrow> None | Inr v \<Rightarrow> v)"

definition pubNames :: "jsval list \<Rightarrow> jsval list" where
  "pubNames posts = map the (filter truthy (map pubProp posts))"

text \<open>The dedup invariant: the log reads back, and no two entries share a \<open>pubName\<close>.\<close>

definition noDuplicatePubs :: "codec \<Rightarrow> string option \<Rightarrow> bool" where
  "noDuplicatePubs J file =
     (case postLog J file of None \<Rightarrow> False | Some posts \<Rightarrow> distinct (pubNames posts))"

text \<open>An AI model that names the pub of every reply by a string.\<close>

definition stringNames :: "env \<Rightarrow> bool" where
  "stringNames E = (\<forall>n used d. ai E n used = Inr d \<longrightarrow> (\<exists>p. end_pub_name d = Some (JStr p)))"

subsection \<open>Runs in sequence\<close>

text \<open>
  \<open>walkRuns J E n w\<close>: the results of \<open>n\<close> runs of \<open>generateWalk()\<close>, each from the
  world the one before left, and the world after the last. \<open>runs J Es w\<close>: the world
  after one pipeline run for each element of \<open>Es\<close>, in order.
\<close>

fun walkRuns :: "codec \<Rightarrow> env \<Rightarrow> nat \<Rightarrow> world \<Rightarrow> (error + walk) list \<times> world" where
  "walkRuns J E 0 w = ([], w)"
| "walkRuns J E (Suc n) w =
     (case generateWalk J E 5 1 w of
        (r, w1) \<Rightarrow> (case walkRuns J E n w1 of (rs, w2) \<Rightarrow> (r # rs, w2)))"

definition succeeded :: "error + 'a \<Rightarrow> bool" where
  "succeeded r = (case r of Inl e \<Rightarrow> False | Inr x \<Rightarrow> True)"

fun runs :: "codec \<Rightarrow> env list \<Rightarrow> world \<Rightarrow> world" where
  "runs J [] w = w"
| "runs J (E # Es) w = runs J Es (snd (publishSundayWalkPost J E w))"

subsection \<open>A JSON reader and printer for log entries\<close>

text \<open>
  A concrete \<open>codec\<close> for the examples: it prints a flat object the way
  \<open>JSON.stringify\<close> does (a quote, a backslash, a line feed, a carriage return and a
  tab escaped) and reads such a line back. It reads nothing else.
\<close>

definition dquote :: char where "dquote = CHR 0x22"
definition bslash :: char where "bslash = CHR 0x5C"

definition escChar :: "char \<Rightarrow> string" where
  "escChar c =
     (if c = dquote then [bslash, dquote]
      else if c = bslash then [bslash, bslash]
      else if c = CHR 0x0A then [bslash, CHR ''n'']
      else if c = CHR 0x0D then [bslash, CHR ''r'']
      else if c = CHR 0x09 then [bslash, CHR ''t'']
      else [c])"

definition quoteStr :: "string \<Rightarrow> string" where
  "quoteStr s = dquote # concat (map escChar s) @ [dquote]"

definition unescChar :: "char \<Rightarrow> char option" where
  "unescChar d =
     (if d = dquote then Some dquote
      else if d = bslash then Some bslash
      else if d = CHR ''n'' then Some (CHR 0x0A)
      else if d = CHR ''r'' then Some (CHR 0x0D)
      else if d = CHR ''t'' then Some (CHR 0x09)
      else None)"

definition consFst :: "char \<Rightarrow> (string \<times> string) option \<Rightarrow> (string \<times> string) option" where
  "consFst c r = (case r of None \<Rightarrow> None | Some (s, rest) \<Rightarrow> Some (c # s, rest))"

fun scanStr :: "string \<Rightarrow> (string \<times> string) option"
  and scanEsc :: "string \<Rightarrow> (string \<times> string) option" where
  "scanStr [] = None"
| "scanStr (c # cs) =
     (if c = dquote then Some ([], cs)
      else if c = bslash then scanEsc cs
      else if c = CHR 0x0A \<or> c = CHR 0x0D \<or> c = CHR 0x09 then None
      else consFst c (scanStr cs))"
| "scanEsc [] = None"
| "scanEsc (d # ds) =
     (case unescChar d of None \<Rightarrow> None | Some c \<Rightarrow> consFst c (scanStr ds))"

definition printVal :: "jsval \<Rightarrow> string" where
  "printVal v =
     (case v of JStr s \<Rightarrow> quoteStr s
      | JBool b \<Rightarrow> if b then ''true'' else ''false''
      | _ \<Rightarrow> ''null'')"

definition parseVal :: "string \<Rightarrow> (jsval \<times> string) option" where
  "parseVal s =
     (case s of
        [] \<Rightarrow> None
      | c # cs \<Rightarrow>
          if c = dquote then (case scanStr cs of None \<Rightarrow> None | Some (t, rest) \<Rightarrow> Some (JStr t, rest))
          else if take 4 s = ''true'' then Some (JBool True, drop 4 s)
          else if take 5 s = ''false'' then Some (JBool False, drop 5 s)
          else if take 4 s = ''null'' then Some (JNull, drop 4 s)
          else None)"

definition printMember :: "string \<times> jsval \<Rightarrow> string" where
  "printMember kv = quoteStr (fst kv) @ CHR '':'' # printVal (snd kv)"

fun printMembers :: "(string \<times> jsval) list \<Rightarrow> string" where
  "printMembers [] = []"
| "printMembers [kv] = printMember kv"
| "printMembers (kv # kvs) = printMember kv @ CHR '','' # printMembers kvs"

definition miniStringify :: "jsval \<Rightarrow> string" where
  "miniStringify v =
     (case v of JObj kvs \<Rightarrow> CHR ''{'' # printMembers kvs @ ''}'' | _ \<Rightarrow> printVal v)"

fun parseMembers :: "nat \<Rightarrow> string \<Rightarrow> (string \<times> jsval) list option" where
  "parseMembers 0 s = None"
| "parseMembers (Suc n) s =
     (case s of
        [] \<Rightarrow> None
      | c # cs \<Rightarrow>
          if c \<noteq> dquote then None
          else (case scanStr cs of
                  None \<Rightarrow> None
                | Some (k, r) \<Rightarrow>
                    (case r of
                       [] \<Rightarrow> None
                     | c' # r' \<Rightarrow>
                         if c' \<noteq> CHR '':'' then None
                         else (case parseVal r' of
                                 None \<Rightarrow> None
                               | Some (v, r'') \<Rightarrow>
                                   if r'' = ''}'' then Some [(k, v)]
                                   else (case r'' of
                                           [] \<Rightarrow> None
                                         | c'' # r''' \<Rightarrow>
                                             if c'' \<noteq> CHR '','' then None
                                             else map_option ((#) (k, v)) (parseMembers n r'''))))))"

definition miniParse :: "string \<Rightarrow> jsval option" where
  "miniParse s =
     (case s of
        [] \<Rightarrow> None
      | c # cs \<Rightarrow>
          if c \<noteq> CHR ''{'' then None
          else if cs = ''}'' then Some (JObj [])
          else (case parseMembers (length cs) cs of
                  None \<Rightarrow> None
                | Some kvs \<Rightarrow> if distinct (map fst kvs) then Some (JObj kvs) else None))"

definition miniJSON :: codec where
  "miniJSON = \<lparr>JSON_parse = miniParse, JSON_stringify = miniStringify\<rparr>"

subsection \<open>Concrete runs\<close>

text \<open>
  A candidate that passes \<open>formatWalkData\<close>, collaborators that all succeed (the AI
  model answers every call with that candidate), a world before the first run, and a
  log holding one entry for The Crown.
\<close>

definition crownData :: walk_data where
  "crownData =
     \<lparr>walk_title = Some ''Heath to Hearth'', area = Some ''Hampstead Heath, North London'',
      area_short = Some ''Hampstead Heath'', start_point = Some ''Hampstead station'',
      end_pub_name = Some (JStr ''The Crown''),
      distance_km = Some (9 / 2), duration_minutes = Some 75,
      highlights = Some [''Ponds'', ''Views'', ''A pint''],
      landmarks_for_prompt = Some [''Parliament Hill''],
      location_coords = Some \<lparr>lat = Some (5156 / 100), lng = Some (- 17 / 100)\<rparr>,
      directions = Some [''Leave the station'', ''Cross the heath'', ''Pass the ponds'',
                         ''The pub is on your left'']\<rparr>"

definition exEnv :: env where
  "exEnv =
     \<lparr>OPENAI_API_KEY = Some ''sk'', NODE_ENV = Some ''production'',
      INSTAGRAM_ACCESS_TOKEN = Some ''token'', INSTAGRAM_ACCOUNT_ID = Some ''account'',
      ai = (\<lambda>n used. Inr crownData), now = 7, isoNow = ''2024-11-10T10:00:00.000Z'',
      fsReadable = True, fsWritable = True,
      fetchWeatherSummary = (\<lambda>wk. \<lparr>summary = ''Grey but dry, 13C'', tip = ''A jumper should do it.''\<rparr>),
      buildCaption = (\<lambda>wk we. ''SUNDAY PUB WALK''),
      generateIllustration =
        (\<lambda>wk we. Inr \<lparr>url = ''https://bot/images/w.png'', localPath = ''/generated/w.png''\<rparr>),
      writeCaptionFile = (\<lambda>p c. None),
      createMediaContainer = (\<lambda>u c. Inr ''container-1''),
      publishMediaContainer = (\<lambda>c. Inr \<lparr>post_id = Some ''post-1''\<rparr>)\<rparr>"

definition freshWorld :: world where
  "freshWorld =
     \<lparr>logFile = None, openaiClient = False, aiCalls = 0, published = [], captionFiles = []\<rparr>"

definition crownEntry :: jsval where
  "crownEntry =
     JObj [(''walkTitle'', JStr ''Heath to Hearth''), (''pubName'', JStr ''The Crown''),
           (''success'', JBool True)]"

definition crownLogged :: world where
  "crownLogged = freshWorld\<lparr>logFile := logText miniJSON [crownEntry]\<rparr>"

text \<open>The same log with a second line that is not JSON.\<close>

definition garbledLog :: world where
  "garbledLog =
     freshWorld\<lparr>logFile := Some (joinLines [miniStringify crownEntry, ''{oops''] @ [newline])\<rparr>"

text \<open>
  Candidates derived from it: one whose pub differs from The Crown in case only, one
  without highlights, and one without highlights that ends at another pub.
\<close>

definition lowerCrownData :: walk_data where
  "lowerCrownData = crownData\<lparr>end_pub_name := Some (JStr ''the crown'')\<rparr>"

definition noHighlights :: walk_data where
  "noHighlights = crownData\<lparr>highlights := None\<rparr>"

definition anchorNoHighlights :: walk_data where
  "anchorNoHighlights = crownData\<lparr>end_pub_name := Some (JStr ''The Anchor''), highlights := None\<rparr>"

text \<open>
  Collaborators whose AI model fails on the first call, answers the second with a
  reply without highlights and every later one with the valid candidate; and the walk
  \<open>formatWalkData\<close> makes of that candidate at time 7.
\<close>

definition scriptedEnv :: env where
  "scriptedEnv =
     exEnv\<lparr>ai := \<lambda>n used. if n = 0 then Inl (Thrown ''timeout'')
                          else if n = 1 then Inr anchorNoHighlights
                          else Inr crownData\<rparr>"

definition crownWalk :: walk where
  "crownWalk = \<lparr>walk_id = ''walk-7'', slug = ''heath-to-hearth'', data = crownData\<rparr>"

text \<open>The log entry of that walk, published as \<open>post-1\<close>.\<close>

definition crownPost :: jsval where
  "crownPost = logEntry exEnv crownWalk \<lparr>post_id = Some ''post-1''\<rparr>"

text \<open>
  The same candidate with the pub name in an array, \<open>"end_pub_name": ["The Crown"]\<close>,
  an AI model that always answers with it, the walk and the log entry made of it.
\<close>

definition listedCrownData :: walk_data where
  "listedCrownData = crownData\<lparr>end_pub_name := Some (JArr [JStr ''The Crown''])\<rparr>"

definition listedEnv :: env where
  "listedEnv = exEnv\<lparr>ai := \<lambda>n used. Inr listedCrownData\<rparr>"

definition listedCrownWalk :: walk where
  "listedCrownWalk = \<lparr>walk_id = ''walk-7'', slug = ''heath-to-hearth'', data = listedCrownData\<rparr>"

definition listedCrownPost :: jsval where
  "listedCrownPost = logEntry exEnv listedCrownWalk \<lparr>post_id = Some ''post-1''\<rparr>"

section \<open>Properties\<close>

subsection \<open>The JSON reader and printer\<close>

lemma scanStr_quoted: "scanStr (concat (map escChar s) @ dquote # r) = Some (s, r)"
  by (induction s)
     (auto simp: escChar_def unescChar_def consFst_def dquote_def bslash_def)

lemma parseVal_printVal: "flatValue v \<Longrightarrow> parseVal (printVal v @ r) = Some (v, r)"
proof (cases v)
  case (JStr s)
  then show ?thesis
    by (simp add: printVal_def parseVal_def quoteStr_def scanStr_quoted)
next
  case (JBool b)
  then show ?thesis
    by (simp add: printVal_def parseVal_def dquote_def)
qed (simp_all add: flatValue_def)

lemma printMember_length: "Suc 0 \<le> length (printMember kv)"
  by (simp add: printMember_def quoteStr_def)

lemma printMembers_length: "length kvs \<le> length (printMembers kvs)"
proof (induction kvs rule: printMembers.induct)
  case (2 kv)
  then show ?case using printMember_length[of kv] by simp
next
  case (3 kv kv' kvs)
  then show ?case by simp
qed simp

lemma parseMembers_single:
  assumes "flatValue (snd kv)"
  shows "parseMembers (Suc n) (printMember kv @ ''}'') = Some [kv]"
proof -
  have "parseMembers (Suc n) (dquote # (concat (map escChar (fst kv)) @ dquote # (CHR '':'' # (printVal (snd kv) @ ''}''))))
        = Some [(fst kv, snd kv)]"
    by (simp add: scanStr_quoted parseVal_printVal[OF assms])
  then show ?thesis by (simp add: printMember_def quoteStr_def)
qed

lemma parseMembers_cons:
  assumes "flatValue (snd kv)"
  shows "parseMembers (Suc n) (printMember kv @ CHR '','' # rest)
         = map_option ((#) kv) (parseMembers n rest)"
proof -
  have "parseMembers (Suc n) (dquote # (concat (map escChar (fst kv)) @ dquote # (CHR '':'' # (printVal (snd kv) @ (CHR '','' # rest)))))
        = map_option ((#) (fst kv, snd kv)) (parseMembers n rest)"
    by (simp add: scanStr_quoted parseVal_printVal[OF assms])
  then show ?thesis by (simp add: printMember_def quoteStr_def)
qed

lemma parseMembers_printMembers:
  "kvs \<noteq> [] \<Longrightarrow> list_all (\<lambda>kv. flatValue (snd kv)) kvs \<Longrightarrow> length kvs \<le> n
   \<Longrightarrow> parseMembers n (printMembers kvs @ ''}'') = Some kvs"
proof (induction kvs arbitrary: n rule: printMembers.induct)
  case 1
  then show ?case by simp
next
  case (2 kv)
  then obtain n' where "n = Suc n'" by (cases n) auto
  with 2 show ?case using parseMembers_single[of kv n'] by simp
next
  case (3 kv kv' kvs)
  then obtain n' where n: "n = Suc n'" by (cases n) auto
  with 3 have "parseMembers n' (printMembers (kv' # kvs) @ ''}'') = Some (kv' # kvs)"
    by simp
  with 3 n show ?case using parseMembers_cons[of kv n' "printMembers (kv' # kvs) @ ''}''"]
    by simp
qed

lemma printMembers_Nil: "printMembers kvs = [] \<longleftrightarrow> kvs = []"
  using printMembers_length[of kvs] by (cases kvs) auto

lemma miniParse_miniStringify:
  assumes "flatEntry v"
  shows "miniParse (miniStringify v) = Some v"
proof -
  from assms obtain kvs where v: "v = JObj kvs" and d: "distinct (map fst kvs)"
    and f: "list_all (\<lambda>kv. flatValue (snd kv)) kvs"
    by (cases v) (auto simp: flatEntry_def)
  show ?thesis
  proof (cases "kvs = []")
    case True
    with v show ?thesis by (simp add: miniParse_def miniStringify_def)
  next
    case False
    then have "parseMembers (length (printMembers kvs @ ''}'')) (printMembers kvs @ ''}'') = Some kvs"
      using f printMembers_length[of kvs] by (intro parseMembers_printMembers) auto
    with False d v show ?thesis
      by (simp add: miniParse_def miniStringify_def printMembers_Nil)
  qed
qed

lemma escChar_no_newline: "newline \<notin> set (escChar c)"
  by (simp add: escChar_def newline_def dquote_def bslash_def)

lemma quoteStr_no_newline: "newline \<notin> set (quoteStr s)"
  using escChar_no_newline by (auto simp: quoteStr_def newline_def dquote_def)

lemma printVal_no_newline: "newline \<notin> set (printVal v)"
  using quoteStr_no_newline by (cases v) (auto simp: printVal_def newline_def)

lemma printMembers_no_newline: "newline \<notin> set (printMembers kvs)"
  using quoteStr_no_newline printVal_no_newline
  by (induction kvs rule: printMembers.induct) (auto simp: printMember_def newline_def)

lemma miniStringify_clean:
  assumes "flatEntry v"
  shows "cleanLine (miniStringify v)"
proof -
  from assms obtain kvs where v: "v = JObj kvs"
    by (cases v) (auto simp: flatEntry_def)
  have "newline \<notin> set (miniStringify v)"
    using printMembers_no_newline[of kvs] by (simp add: v miniStringify_def newline_def)
  then show ?thesis
    by (simp add: v cleanLine_def miniStringify_def whiteSpace_def startsWith_def)
qed

lemma codec_ok_miniJSON: "codec_ok miniJSON"
  by (simp add: codec_ok_def miniJSON_def miniParse_miniStringify miniStringify_clean)

subsection \<open>Lines of the log\<close>

lemma split_nl_line: "newline \<notin> set l \<Longrightarrow> split_nl (l @ newline # rest) = l # split_nl rest"
  by (induction l) auto

lemma split_nl_single: "newline \<notin> set l \<Longrightarrow> split_nl l = [l]"
  by (induction l) auto

lemma split_nl_joinLines:
  "ls \<noteq> [] \<Longrightarrow> list_all (\<lambda>l. newline \<notin> set l) ls \<Longrightarrow> split_nl (joinLines ls) = ls"
  by (induction ls rule: joinLines.induct) (simp_all add: split_nl_single split_nl_line)

lemma concat_joinLines:
  "ls \<noteq> [] \<Longrightarrow> concat (map (\<lambda>l. l @ [newline]) ls) = joinLines ls @ [newline]"
  by (induction ls rule: joinLines.induct) simp_all

lemma joinLines_first:
  "ls \<noteq> [] \<Longrightarrow> \<exists>r. joinLines ls = hd ls @ r \<and> (r = [] \<or> hd r = newline)"
  by (induction ls rule: joinLines.induct) auto

lemma joinLines_last:
  "ls \<noteq> [] \<Longrightarrow> \<exists>r. joinLines ls = r @ last ls \<and> (r = [] \<or> last r = newline)"
proof (induction ls rule: joinLines.induct)
  case (3 l l' ls)
  then obtain r where "joinLines (l' # ls) = r @ last (l' # ls)" "r = [] \<or> last r = newline"
    by auto
  then have "joinLines (l # l' # ls) = (l @ newline # r) @ last (l # l' # ls)"
    "last (l @ newline # r) = newline" by auto
  then show ?case by (intro exI[of _ "l @ newline # r"]) simp
qed auto

lemma startsWith_line:
  assumes "l \<noteq> []" and "newline \<notin> set p \<or> p = [newline]"
    and "r = [] \<or> hd r = newline"
  shows "startsWith (l @ r) p = startsWith l p"
proof (cases "length p \<le> length l")
  case True
  then show ?thesis by (simp add: startsWith_def)
next
  case False
  then have n: "\<not> startsWith l p" by (auto simp: startsWith_def)
  have "\<not> startsWith (l @ r) p"
  proof
    assume "startsWith (l @ r) p"
    moreover from False have "take (length p) l = l" by simp
    ultimately have p: "p = l @ take (length p - length l) r" and "p \<noteq> []"
      by (simp_all add: startsWith_def)
    from False have "0 < length p - length l" by simp
    moreover from p False have "r \<noteq> []" by (cases r) auto
    ultimately have "take (length p - length l) r = newline # take (length p - length l - 1) (tl r)"
      using assms(3) by (cases r; cases "length p - length l") auto
    with p have "p = l @ newline # take (length p - length l - 1) (tl r)" by simp
    then have "newline \<in> set p" "p \<noteq> [newline]"
      using assms(1) by (auto simp: append_eq_Cons_conv intro: list.set_intros
          dest: arg_cong[where f = set])
    with assms(2) show False by simp
  qed
  with n show ?thesis by simp
qed

lemma stripStart_line:
  assumes "l \<noteq> []" and "\<not> list_ex (startsWith l) ps"
    and "\<forall>p \<in> set ps. newline \<notin> set p \<or> p = [newline]"
    and "r = [] \<or> hd r = newline"
  shows "stripStart ps (l @ r) = l @ r"
proof -
  from assms have "\<forall>p \<in> set ps. \<not> startsWith (l @ r) p"
    by (auto simp: startsWith_line list_ex_iff)
  then have "find (startsWith (l @ r)) ps = None"
    by (simp add: find_None_iff)
  then show ?thesis by (subst stripStart.simps) simp
qed

lemma whiteSpace_lines: "\<forall>p \<in> set whiteSpace. newline \<notin> set p \<or> p = [newline]"
  by (simp add: whiteSpace_def newline_def)

lemma rev_whiteSpace_lines:
  "\<forall>p \<in> set (map rev whiteSpace). newline \<notin> set p \<or> p = [newline]"
  by (simp add: whiteSpace_def newline_def)

lemma stripStart_newline:
  "stripStart (map rev whiteSpace) (newline # s) = stripStart (map rev whiteSpace) s"
  by (subst stripStart.simps) (simp add: whiteSpace_def startsWith_def newline_def)

lemma trim_lines:
  assumes "ls \<noteq> []" and "cleanLine (hd ls)" and "cleanLine (last ls)"
  shows "trim (joinLines ls @ [newline]) = joinLines ls"
proof -
  from joinLines_first[OF assms(1)] obtain r where
    r: "joinLines ls = hd ls @ r" "r = [] \<or> hd r = newline" by blast
  from joinLines_last[OF assms(1)] obtain q where
    q: "joinLines ls = q @ last ls" "q = [] \<or> last q = newline" by blast
  from r(2) have "r @ [newline] = [] \<or> hd (r @ [newline]) = newline" by (cases r) auto
  with assms(2) have "stripStart whiteSpace (hd ls @ (r @ [newline])) = hd ls @ (r @ [newline])"
    by (intro stripStart_line whiteSpace_lines) (simp_all add: cleanLine_def)
  with r(1) have s: "trimStart (joinLines ls @ [newline]) = joinLines ls @ [newline]"
    by (simp add: trimStart_def)
  from q(2) have "rev q = [] \<or> hd (rev q) = newline" by (cases q rule: rev_cases) auto
  with assms(3) have "stripStart (map rev whiteSpace) (rev (last ls) @ rev q) = rev (last ls) @ rev q"
    by (intro stripStart_line rev_whiteSpace_lines) (simp_all add: cleanLine_def)
  with q(1) have "stripStart (map rev whiteSpace) (rev (joinLines ls)) = rev (joinLines ls)"
    by simp
  then have "trimEnd (joinLines ls @ [newline]) = joinLines ls"
    by (simp add: trimEnd_def stripStart_newline)
  with s show ?thesis by (simp add: trim_def)
qed

lemma lines_of_log:
  assumes "ls \<noteq> []" and "list_all cleanLine ls"
  shows "split_nl (trim (concat (map (\<lambda>l. l @ [newline]) ls))) = ls"
proof -
  from assms have c: "cleanLine (hd ls)" "cleanLine (last ls)"
    by (auto simp: list_all_iff)
  from trim_lines[OF assms(1) c]
  have "trim (joinLines ls @ [newline]) = joinLines ls" .
  moreover from assms(2) have "list_all (\<lambda>l. newline \<notin> set l) ls"
    by (auto simp: list_all_iff cleanLine_def)
  ultimately show ?thesis
    using assms(1) by (simp add: concat_joinLines split_nl_joinLines)
qed

subsection \<open>One attempt of \<open>generateWalk\<close>\<close>

lemma getUsedPubs_logFile:
  "logFile w' = logFile w \<Longrightarrow> getUsedPubs J E w' = getUsedPubs J E w"
  by (simp add: getUsedPubs_def readUsedPubs_def readFile_def)

lemma getOpenAIClient_frame:
  assumes "getOpenAIClient E w = (r, w1)"
  shows "logFile w1 = logFile w" and "aiCalls w1 = aiCalls w"
    and "published w1 = published w" and "captionFiles w1 = captionFiles w"
  using assms by (auto simp: getOpenAIClient_def split: if_splits)

lemma generateWalk_cases [consumes 1, case_names client transport collision fresh]:
  assumes "\<not> m < a"
  obtains
    e w1 where "getOpenAIClient E w = (Inl e, w1)"
      and "generateWalk J E m a w = (Inl e, w1)"
  | u w1 e where "getOpenAIClient E w = (Inr u, w1)"
      and "ai E (aiCalls w1) (getUsedPubs J E w) = Inl e"
      and "generateWalk J E m a w = (Inl e, w1\<lparr>aiCalls := Suc (aiCalls w1)\<rparr>)"
  | u w1 d where "getOpenAIClient E w = (Inr u, w1)"
      and "ai E (aiCalls w1) (getUsedPubs J E w) = Inr d"
      and "arrIncludes (getUsedPubs J E w) (end_pub_name d)"
      and "generateWalk J E m a w = generateWalk J E m (a + 1) (w1\<lparr>aiCalls := Suc (aiCalls w1)\<rparr>)"
  | u w1 d where "getOpenAIClient E w = (Inr u, w1)"
      and "ai E (aiCalls w1) (getUsedPubs J E w) = Inr d"
      and "\<not> arrIncludes (getUsedPubs J E w) (end_pub_name d)"
      and "generateWalk J E m a w = (formatWalkData E d, w1\<lparr>aiCalls := Suc (aiCalls w1)\<rparr>)"
proof -
  obtain r w1 where c: "getOpenAIClient E w = (r, w1)"
    by (cases "getOpenAIClient E w")
  show thesis
  proof (cases r)
    case (Inl e)
    with c assms have "generateWalk J E m a w = (Inl e, w1)"
      by (subst generateWalk.simps) simp
    with c Inl show thesis using that(1) by blast
  next
    case (Inr u)
    note r = this
    show thesis
    proof (cases "ai E (aiCalls w1) (getUsedPubs J E w)")
      case (Inl e)
      with c r assms
      have "generateWalk J E m a w = (Inl e, w1\<lparr>aiCalls := Suc (aiCalls w1)\<rparr>)"
        by (subst generateWalk.simps) (simp add: Let_def)
      with c r Inl show thesis using that(2) by blast
    next
      case (Inr d)
      show thesis
      proof (cases "arrIncludes (getUsedPubs J E w) (end_pub_name d)")
        case True
        with c r Inr assms
        have "generateWalk J E m a w
              = generateWalk J E m (a + 1) (w1\<lparr>aiCalls := Suc (aiCalls w1)\<rparr>)"
          by (subst generateWalk.simps) (simp add: Let_def)
        with c r Inr True show thesis using that(3) by blast
      next
        case False
        with c r Inr assms
        have "generateWalk J E m a w = (formatWalkData E d, w1\<lparr>aiCalls := Suc (aiCalls w1)\<rparr>)"
          by (subst generateWalk.simps) (simp add: Let_def)
        with c r Inr False show thesis using that(4) by blast
      qed
    qed
  qed
qed

lemma generateWalk_frame:
  "logFile (snd (generateWalk J E m a w)) = logFile w \<and>
   published (snd (generateWalk J E m a w)) = published w \<and>
   captionFiles (snd (generateWalk J E m a w)) = captionFiles w"
proof (induction "Suc m - a" arbitrary: a w)
  case 0
  then have "m < a" by simp
  then show ?case by (simp add: generateWalk.simps)
next
  case (Suc n)
  then have le: "\<not> m < a" and n: "n = Suc m - (a + 1)" by simp_all
  from le show ?case
  proof (cases rule: generateWalk_cases[where J = J and E = E and w = w])
    case (collision u w1 d)
    with Suc.hyps(1)[OF n, of "w1\<lparr>aiCalls := Suc (aiCalls w1)\<rparr>"] show ?thesis
      by (simp add: getOpenAIClient_frame)
  qed (simp_all add: getOpenAIClient_frame)
qed

lemma generateWalk_aiCalls:
  "aiCalls w \<le> aiCalls (snd (generateWalk J E m a w)) \<and>
   aiCalls (snd (generateWalk J E m a w)) \<le> aiCalls w + (Suc m - a)"
proof (induction "Suc m - a" arbitrary: a w)
  case 0
  then have "m < a" by simp
  then show ?case by (simp add: generateWalk.simps)
next
  case (Suc n)
  then have le: "\<not> m < a" and n: "n = Suc m - (a + 1)" by simp_all
  from le show ?case
  proof (cases rule: generateWalk_cases[where J = J and E = E and w = w])
    case (collision u w1 d)
    with Suc.hyps(1)[OF n, of "w1\<lparr>aiCalls := Suc (aiCalls w1)\<rparr>"] le show ?thesis
      by (simp add: getOpenAIClient_frame) linarith
  qed (use le in \<open>auto simp: getOpenAIClient_frame\<close>)
qed

lemma formatWalkData_data:
  "formatWalkData E d = Inr wk \<Longrightarrow> data wk = d \<and> truthy (end_pub_name d)"
  by (auto simp: formatWalkData_def required_def Let_def split: option.splits if_splits)

lemma generateWalk_result:
  assumes "generateWalk J E m a w = (Inr wk, w')"
  shows "\<exists>v. end_pub_name (data wk) = Some v \<and> truthy (Some v)
             \<and> \<not> arrIncludes (getUsedPubs J E w') (Some v)
             \<and> (\<exists>n. ai E n (getUsedPubs J E w') = Inr (data wk))"
  using assms
proof (induction "Suc m - a" arbitrary: a w)
  case 0
  then have "m < a" by simp
  with 0 show ?case by (simp add: generateWalk.simps)
next
  case (Suc n)
  then have le: "\<not> m < a" and n: "n = Suc m - (a + 1)" by simp_all
  from le show ?case
  proof (cases rule: generateWalk_cases[where J = J and E = E and w = w])
    case (client e w1)
    with Suc.prems show ?thesis by simp
  next
    case (transport u w1 e)
    with Suc.prems show ?thesis by simp
  next
    case (collision u w1 d)
    with Suc.hyps(1)[OF n, of "w1\<lparr>aiCalls := Suc (aiCalls w1)\<rparr>"] Suc.prems show ?thesis
      by simp
  next
    case (fresh u w1 d)
    with Suc.prems have f: "formatWalkData E d = Inr wk" and w': "w' = w1\<lparr>aiCalls := Suc (aiCalls w1)\<rparr>"
      by simp_all
    from fresh(1) have "logFile w' = logFile w"
      by (simp add: w' getOpenAIClient_frame)
    then have u: "getUsedPubs J E w' = getUsedPubs J E w" by (rule getUsedPubs_logFile)
    from formatWalkData_data[OF f] obtain v where
      v: "data wk = d" "end_pub_name d = Some v" "truthy (Some v)"
      by (cases "end_pub_name d") auto
    with fresh(2,3) u show ?thesis by auto
  qed
qed

subsection \<open>Reading a log that \<open>logPost\<close> wrote\<close>

lemma mapE_parse_stringify:
  "codec_ok J \<Longrightarrow> list_all flatEntry es
   \<Longrightarrow> mapE (parseLine J) (map (JSON_stringify J) es) = Inr es"
  by (induction es) (auto simp: codec_ok_def parseLine_def)

lemma pubNameOf_flat: "flatEntry e \<Longrightarrow> pubNameOf e = Inr (pubProp e)"
  by (cases e) (auto simp: flatEntry_def pubProp_def)

lemma mapE_pubNameOf_flat:
  "list_all flatEntry es \<Longrightarrow> mapE pubNameOf es = Inr (map pubProp es)"
  by (induction es) (auto simp: pubNameOf_flat)

lemma postLog_logText:
  assumes "codec_ok J" and "list_all flatEntry es"
  shows "postLog J (logText J es) = Some es"
proof (cases "es = []")
  case True
  then show ?thesis by (simp add: postLog_def logText_def)
next
  case False
  let ?ls = "map (JSON_stringify J) es"
  from assms have "list_all cleanLine ?ls"
    by (auto simp: list_all_iff codec_ok_def)
  with False have "split_nl (trim (concat (map (\<lambda>l. l @ [newline]) ?ls))) = ?ls"
    by (intro lines_of_log) auto
  then have "split_nl (trim (concat (map (\<lambda>e. JSON_stringify J e @ [newline]) es))) = ?ls"
    by (simp add: comp_def)
  with False show ?thesis
    by (simp add: postLog_def logText_def mapE_parse_stringify[OF assms])
qed

lemma getUsedPubs_logText:
  assumes "codec_ok J" and "list_all flatEntry es" and "fsReadable E"
    and "logFile w = logText J es"
  shows "getUsedPubs J E w = uniq (pubNames es)"
proof (cases "es = []")
  case True
  with assms(4) show ?thesis
    by (simp add: getUsedPubs_def readUsedPubs_def readFile_def logText_def pubNames_def uniq_def)
next
  case False
  with assms(4) obtain content where c: "logFile w = Some content" "logText J es = Some content"
    by (auto simp: logText_def)
  from postLog_logText[OF assms(1,2)] c(2)
  have "mapE (parseLine J) (split_nl (trim content)) = Inr es"
    by (auto simp: postLog_def split: sum.splits)
  with c(1) assms(3) show ?thesis
    by (simp add: getUsedPubs_def readUsedPubs_def readFile_def mapE_pubNameOf_flat[OF assms(2)]
        pubNames_def)
qed

subsection \<open>Membership in the used pubs\<close>

lemma sameValueZero_JStr: "sameValueZero x (JStr p) \<longleftrightarrow> x = JStr p"
  by (cases x) auto

lemma arrIncludes_JStr: "arrIncludes S (Some (JStr p)) \<longleftrightarrow> JStr p \<in> set S"
  by (auto simp: list_ex_iff sameValueZero_JStr)

lemma mapE_isl: "isl (mapE f xs) \<longleftrightarrow> list_ex (\<lambda>x. isl (f x)) xs"
  by (induction xs) (auto split: sum.splits)

lemma mapE_Inr: "mapE f xs = Inr ys \<Longrightarrow> ys = map (\<lambda>x. projr (f x)) xs"
  by (induction xs arbitrary: ys) (auto split: sum.splits)

lemma list_ex_map: "list_ex P (map f xs) = list_ex (\<lambda>x. P (f x)) xs"
  by (induction xs) auto

lemma isl_pubNameOf: "isl (pubNameOf v) \<longleftrightarrow> v = JNull"
  by (cases v) auto

lemma isl_parseLine: "isl (parseLine J l) \<longleftrightarrow> JSON_parse J l = None"
  by (auto simp: parseLine_def split: option.splits)

lemma projr_parseLine: "JSON_parse J l = Some v \<Longrightarrow> projr (parseLine J l) = v"
  by (simp add: parseLine_def)

lemma readUsedPubs_throws:
  "isl (readUsedPubs J E w) \<longleftrightarrow>
     (case logFile w of
        None \<Rightarrow> True
      | Some content \<Rightarrow>
          \<not> fsReadable E \<or>
          list_ex (\<lambda>l. JSON_parse J l = None \<or> JSON_parse J l = Some JNull)
            (split_nl (trim content)))"
proof (cases "logFile w")
  case None
  then show ?thesis by (simp add: readUsedPubs_def readFile_def)
next
  case (Some content)
  let ?ls = "split_nl (trim content)"
  show ?thesis
  proof (cases "fsReadable E")
    case False
    with Some show ?thesis by (simp add: readUsedPubs_def readFile_def)
  next
    case True
    show ?thesis
    proof (cases "mapE (parseLine J) ?ls")
      case (Inl e)
      then have "isl (mapE (parseLine J) ?ls)" by simp
      then have "list_ex (\<lambda>l. JSON_parse J l = None) ?ls"
        by (simp add: mapE_isl isl_parseLine)
      then have "list_ex (\<lambda>l. JSON_parse J l = None \<or> JSON_parse J l = Some JNull) ?ls"
        by (auto simp: list_ex_iff)
      with Some True Inl show ?thesis by (simp add: readUsedPubs_def readFile_def)
    next
      case (Inr posts)
      then have "\<not> isl (mapE (parseLine J) ?ls)" by simp
      then have ok: "\<forall>l \<in> set ?ls. JSON_parse J l \<noteq> None"
        by (auto simp: mapE_isl isl_parseLine list_ex_iff)
      from Inr have posts: "posts = map (\<lambda>l. projr (parseLine J l)) ?ls" by (rule mapE_Inr)
      have pt: "(projr (parseLine J l) = JNull) = (JSON_parse J l = Some JNull)"
        if "l \<in> set ?ls" for l
        using ok that by (auto simp: parseLine_def split: option.splits)
      have "isl (mapE pubNameOf posts) \<longleftrightarrow> list_ex (\<lambda>l. projr (parseLine J l) = JNull) ?ls"
        by (simp add: mapE_isl posts list_ex_map isl_pubNameOf)
      also have "\<dots> \<longleftrightarrow> list_ex (\<lambda>l. JSON_parse J l = Some JNull) ?ls"
        using pt by (simp add: list_ex_iff)
      also have "\<dots> \<longleftrightarrow> list_ex (\<lambda>l. JSON_parse J l = None \<or> JSON_parse J l = Some JNull) ?ls"
        using ok by (auto simp: list_ex_iff)
      finally have "isl (mapE pubNameOf posts) \<longleftrightarrow>
          list_ex (\<lambda>l. JSON_parse J l = None \<or> JSON_parse J l = Some JNull) ?ls" .
      with Some True Inr show ?thesis
        by (auto simp: readUsedPubs_def readFile_def split: sum.splits)
    qed
  qed
qed

subsection \<open>Attempts that all collide, and the course of a run\<close>

lemma getOpenAIClient_ok:
  "isSet (OPENAI_API_KEY E) \<or> openaiClient w
   \<Longrightarrow> getOpenAIClient E w = (Inr (), w\<lparr>openaiClient := True\<rparr>)"
  by (auto simp: getOpenAIClient_def)

lemma getOpenAIClient_made: "getOpenAIClient E w = (Inr u, w1) \<Longrightarrow> openaiClient w1"
  by (auto simp: getOpenAIClient_def split: if_splits)

lemma getOpenAIClient_error:
  "getOpenAIClient E w = (Inl e, w1)
   \<Longrightarrow> e = Thrown ''OPENAI_API_KEY environment variable is not set'' \<and> w1 = w"
  by (auto simp: getOpenAIClient_def split: if_splits)

lemma generateWalk_all_collide:
  assumes stub: "\<forall>n. \<exists>d. ai E n U = Inr d \<and> arrIncludes U (end_pub_name d)"
  shows "getUsedPubs J E w = U \<Longrightarrow> isSet (OPENAI_API_KEY E) \<or> openaiClient w
    \<Longrightarrow> fst (generateWalk J E m a w) = Inl MaxAttempts
        \<and> aiCalls (snd (generateWalk J E m a w)) = aiCalls w + (Suc m - a)"
proof (induction "Suc m - a" arbitrary: a w)
  case 0
  then have "m < a" by simp
  then show ?case by (simp add: generateWalk.simps)
next
  case (Suc n)
  then have le: "\<not> m < a" and n: "n = Suc m - (a + 1)" by simp_all
  from stub obtain d0 where d0: "ai E (aiCalls w) U = Inr d0"
    "arrIncludes U (end_pub_name d0)" by blast
  from le show ?case
  proof (cases rule: generateWalk_cases[where J = J and E = E and w = w])
    case (client e w1)
    with Suc.prems(2) show ?thesis by (simp add: getOpenAIClient_ok)
  next
    case (transport u w1 e)
    with d0 Suc.prems(1) show ?thesis by (simp add: getOpenAIClient_frame)
  next
    case (collision u w1 d)
    let ?w2 = "w1\<lparr>aiCalls := Suc (aiCalls w1)\<rparr>"
    from collision(1) have "getUsedPubs J E ?w2 = getUsedPubs J E w"
      by (intro getUsedPubs_logFile) (simp add: getOpenAIClient_frame)
    moreover from collision(1) have "openaiClient ?w2"
      by (simp add: getOpenAIClient_made)
    ultimately have "fst (generateWalk J E m (a + 1) ?w2) = Inl MaxAttempts
        \<and> aiCalls (snd (generateWalk J E m (a + 1) ?w2)) = aiCalls ?w2 + (Suc m - (a + 1))"
      using Suc.hyps(1)[OF n, of ?w2] Suc.prems(1) by simp
    with collision le show ?thesis
      by (simp add: getOpenAIClient_frame)
  next
    case (fresh u w1 d)
    with d0 Suc.prems(1) show ?thesis by (simp add: getOpenAIClient_frame)
  qed
qed

lemma generateWalk_trace:
  assumes "isSet (OPENAI_API_KEY E) \<or> openaiClient w" and "getUsedPubs J E w = U"
  shows "a \<le> m \<Longrightarrow>
    \<exists>j \<le> Suc m - a.
       (\<forall>i < j. \<exists>d. ai E (aiCalls w + i) U = Inr d \<and> arrIncludes U (end_pub_name d))
       \<and> (if j = Suc m - a
            then generateWalk J E m a w
                   = (Inl MaxAttempts, w\<lparr>openaiClient := True, aiCalls := aiCalls w + j\<rparr>)
            else (\<exists>e. ai E (aiCalls w + j) U = Inl e
                       \<and> generateWalk J E m a w
                           = (Inl e, w\<lparr>openaiClient := True, aiCalls := Suc (aiCalls w + j)\<rparr>))
               \<or> (\<exists>d. ai E (aiCalls w + j) U = Inr d \<and> \<not> arrIncludes U (end_pub_name d)
                       \<and> generateWalk J E m a w
                           = (formatWalkData E d,
                              w\<lparr>openaiClient := True, aiCalls := Suc (aiCalls w + j)\<rparr>)))"
  using assms
proof (induction "Suc m - a" arbitrary: a w)
  case 0
  then show ?case by simp
next
  case (Suc n)
  then have le: "\<not> m < a" and n: "n = Suc m - (a + 1)" by simp_all
  note c = getOpenAIClient_ok[OF Suc.prems(2)]
  let ?w2 = "w\<lparr>openaiClient := True, aiCalls := Suc (aiCalls w)\<rparr>"
  from le show ?case
  proof (cases rule: generateWalk_cases[where J = J and E = E and w = w])
    case (client e w1)
    with c show ?thesis by simp
  next
    case (transport u w1 e)
    with c Suc.prems(3) Suc.hyps(2) show ?thesis
      by (intro exI[of _ 0]) auto
  next
    case (fresh u w1 d)
    with c Suc.prems(3) Suc.hyps(2) show ?thesis
      by (intro exI[of _ 0]) auto
  next
    case (collision u w1 d)
    with c Suc.prems(3) have d: "ai E (aiCalls w) U = Inr d" "arrIncludes U (end_pub_name d)"
      and g: "generateWalk J E m a w = generateWalk J E m (a + 1) ?w2"
      by auto
    have u2: "getUsedPubs J E ?w2 = U"
      using Suc.prems(3) getUsedPubs_logFile[of ?w2 w J E] by simp
    show ?thesis
    proof (cases "a + 1 \<le> m")
      case True
      from Suc.hyps(1)[OF n True _ u2] obtain j where j: "j \<le> Suc m - (a + 1)"
        "\<forall>i < j. \<exists>d. ai E (aiCalls ?w2 + i) U = Inr d \<and> arrIncludes U (end_pub_name d)"
        "if j = Suc m - (a + 1)
         then generateWalk J E m (a + 1) ?w2
                = (Inl MaxAttempts, ?w2\<lparr>openaiClient := True, aiCalls := aiCalls ?w2 + j\<rparr>)
         else (\<exists>e. ai E (aiCalls ?w2 + j) U = Inl e
                    \<and> generateWalk J E m (a + 1) ?w2
                        = (Inl e, ?w2\<lparr>openaiClient := True, aiCalls := Suc (aiCalls ?w2 + j)\<rparr>))
            \<or> (\<exists>d. ai E (aiCalls ?w2 + j) U = Inr d \<and> \<not> arrIncludes U (end_pub_name d)
                    \<and> generateWalk J E m (a + 1) ?w2
                        = (formatWalkData E d,
                           ?w2\<lparr>openaiClient := True, aiCalls := Suc (aiCalls ?w2 + j)\<rparr>))"
        by auto
      have all: "\<forall>i < Suc j. \<exists>d. ai E (aiCalls w + i) U = Inr d \<and> arrIncludes U (end_pub_name d)"
      proof (intro allI impI)
        fix i assume "i < Suc j"
        show "\<exists>d. ai E (aiCalls w + i) U = Inr d \<and> arrIncludes U (end_pub_name d)"
        proof (cases i)
          case 0
          with d show ?thesis by auto
        next
          case (Suc i')
          with \<open>i < Suc j\<close> j(2) have "\<exists>d. ai E (aiCalls ?w2 + i') U = Inr d \<and> arrIncludes U (end_pub_name d)"
            by simp
          with Suc show ?thesis by simp
        qed
      qed
      from j(1) le True have b: "Suc j \<le> Suc m - a" "(Suc j = Suc m - a) = (j = Suc m - (a + 1))"
        by auto
      show ?thesis
        unfolding g using j(3) b(2)
        by (intro exI[of _ "Suc j"] conjI b(1) all) (auto split: if_splits)
    next
      case False
      with le have "a = m" by simp
      then have "generateWalk J E m (a + 1) ?w2 = (Inl MaxAttempts, ?w2)"
        by (subst generateWalk.simps) simp
      with g d \<open>a = m\<close> show ?thesis
        by (intro exI[of _ "Suc 0"]) simp
    qed
  qed
qed

subsection \<open>The rounds of the selector\<close>

lemma walkOptions_walkRuns:
  "walkOptions J E n walks w =
     (walks @ map projr (filter succeeded (fst (walkRuns J E n w))), snd (walkRuns J E n w))"
proof (induction n arbitrary: walks w)
  case 0
  then show ?case by simp
next
  case (Suc n)
  obtain r w1 where g: "generateWalk J E 5 1 w = (r, w1)"
    by (cases "generateWalk J E 5 1 w")
  obtain rs w2 where rs: "walkRuns J E n w1 = (rs, w2)"
    by (cases "walkRuns J E n w1")
  show ?case
    using Suc[of _ w1] g rs by (cases r) (simp_all add: succeeded_def)
qed

lemma walkRuns_length: "length (fst (walkRuns J E n w)) = n"
proof (induction n arbitrary: w)
  case 0
  then show ?case by simp
next
  case (Suc n)
  obtain r w1 where g: "generateWalk J E 5 1 w = (r, w1)"
    by (cases "generateWalk J E 5 1 w")
  obtain rs w2 where rs: "walkRuns J E n w1 = (rs, w2)"
    by (cases "walkRuns J E n w1")
  from Suc[of w1] g rs show ?case by simp
qed

lemma arrIncludes_Nil: "arrIncludes [] v = False"
  by (cases v) simp_all

lemma walkRuns_frame:
  "logFile (snd (walkRuns J E n w)) = logFile w \<and>
   published (snd (walkRuns J E n w)) = published w \<and>
   captionFiles (snd (walkRuns J E n w)) = captionFiles w"
proof (induction n arbitrary: w)
  case 0
  then show ?case by simp
next
  case (Suc n)
  obtain r w1 where g: "generateWalk J E 5 1 w = (r, w1)"
    by (cases "generateWalk J E 5 1 w")
  obtain rs w2 where rs: "walkRuns J E n w1 = (rs, w2)"
    by (cases "walkRuns J E n w1")
  from Suc[of w1] generateWalk_frame[of J E 5 1 w] g rs show ?case by simp
qed

lemma succeeded_projr: "succeeded r \<Longrightarrow> Inr (projr r) = r"
  by (cases r) (simp_all add: succeeded_def)

lemma getUsedPubs_no_log: "logFile w = None \<Longrightarrow> getUsedPubs J E w = []"
  by (simp add: getUsedPubs_def readUsedPubs_def readFile_def)

subsection \<open>The cases of a pipeline run\<close>

lemma generateBestWalk_world: "snd (generateBestWalk J E n w) = snd (walkRuns J E n w)"
  by (simp add: generateBestWalk_def walkOptions_walkRuns split: list.splits)

lemma generateBestWalk_frame:
  assumes "generateBestWalk J E n w = (r, w1)"
  shows "logFile w1 = logFile w" and "published w1 = published w"
    and "captionFiles w1 = captionFiles w"
  using generateBestWalk_world[of J E n w] walkRuns_frame[of J E n w] assms by simp_all

lemma postToInstagram_failed: "postToInstagram E u p c w = (Inl e, w2) \<Longrightarrow> w2 = w"
  by (auto simp: postToInstagram_def split: if_splits sum.splits)

lemma postToInstagram_posted:
  "postToInstagram E u p c w = (Inr r, w2) \<Longrightarrow> w2 = w\<lparr>published := published w @ [(u, c)]\<rparr>"
  by (auto simp: postToInstagram_def split: if_splits sum.splits)

lemma pipeline_cases [case_names generation illustration caption_file development
    publish_failed published]:
  obtains
    e w1 where "generateBestWalk J E 1 w = (Inl e, w1)"
      and "publishSundayWalkPost J E w = (Inl e, w1)"
  | wk w1 e where "generateBestWalk J E 1 w = (Inr wk, w1)"
      and "generateIllustration E wk (fetchWeatherSummary E wk) = Inl e"
      and "publishSundayWalkPost J E w = (Inl e, w1)"
  | wk w1 img e where "generateBestWalk J E 1 w = (Inr wk, w1)"
      and "generateIllustration E wk (fetchWeatherSummary E wk) = Inr img"
      and "NODE_ENV E = Some ''development''"
      and "writeCaptionFile E (captionPathOf (localPath img))
             (buildCaption E wk (fetchWeatherSummary E wk)) = Some e"
      and "publishSundayWalkPost J E w = (Inl e, w1)"
  | wk w1 img where "generateBestWalk J E 1 w = (Inr wk, w1)"
      and "generateIllustration E wk (fetchWeatherSummary E wk) = Inr img"
      and "NODE_ENV E = Some ''development''"
      and "writeCaptionFile E (captionPathOf (localPath img))
             (buildCaption E wk (fetchWeatherSummary E wk)) = None"
      and "publishSundayWalkPost J E w =
             (Inr \<lparr>success = True, mode = ''development'', r_walk = titleOf wk,
                   r_image = Some (localPath img), postId = None\<rparr>,
              w1\<lparr>captionFiles := captionFiles w1 @
                 [(captionPathOf (localPath img), buildCaption E wk (fetchWeatherSummary E wk))]\<rparr>)"
  | wk w1 img e w2 where "generateBestWalk J E 1 w = (Inr wk, w1)"
      and "generateIllustration E wk (fetchWeatherSummary E wk) = Inr img"
      and "NODE_ENV E \<noteq> Some ''development''"
      and "postToInstagram E (url img) (localPath img)
             (buildCaption E wk (fetchWeatherSummary E wk)) w1 = (Inl e, w2)"
      and "publishSundayWalkPost J E w = (Inl e, w2)"
  | wk w1 img result w2 where "generateBestWalk J E 1 w = (Inr wk, w1)"
      and "generateIllustration E wk (fetchWeatherSummary E wk) = Inr img"
      and "NODE_ENV E \<noteq> Some ''development''"
      and "postToInstagram E (url img) (localPath img)
             (buildCaption E wk (fetchWeatherSummary E wk)) w1 = (Inr result, w2)"
      and "publishSundayWalkPost J E w =
             (Inr \<lparr>success = True, mode = ''production'', r_walk = titleOf wk,
                   r_image = None, postId = post_id result\<rparr>,
              logPost J E wk result w2)"
proof -
  obtain r w1 where g: "generateBestWalk J E 1 w = (r, w1)"
    by (cases "generateBestWalk J E 1 w")
  show thesis
  proof (cases r)
    case (Inl e)
    with g have "publishSundayWalkPost J E w = (Inl e, w1)"
      by (simp add: publishSundayWalkPost_def)
    with g Inl show thesis using that(1) by blast
  next
    case (Inr wk)
    note wk = this
    let ?caption = "buildCaption E wk (fetchWeatherSummary E wk)"
    show thesis
    proof (cases "generateIllustration E wk (fetchWeatherSummary E wk)")
      case (Inl e)
      with g wk have "publishSundayWalkPost J E w = (Inl e, w1)"
        by (simp add: publishSundayWalkPost_def Let_def)
      with g wk Inl show thesis using that(2) by blast
    next
      case (Inr img)
      note img = this
      show thesis
      proof (cases "NODE_ENV E = Some ''development''")
        case True
        show thesis
        proof (cases "writeCaptionFile E (captionPathOf (localPath img)) ?caption")
          case None
          with g wk img True show thesis
            using that(4) by (simp add: publishSundayWalkPost_def Let_def)
        next
          case (Some e)
          with g wk img True show thesis
            using that(3) by (simp add: publishSundayWalkPost_def Let_def)
        qed
      next
        case False
        obtain pr w2 where p: "postToInstagram E (url img) (localPath img) ?caption w1 = (pr, w2)"
          by (cases "postToInstagram E (url img) (localPath img) ?caption w1")
        show thesis
        proof (cases pr)
          case (Inl e)
          with g wk img False p show thesis
            using that(5) by (simp add: publishSundayWalkPost_def Let_def)
        next
          case (Inr result)
          with g wk img False p show thesis
            using that(6) by (simp add: publishSundayWalkPost_def Let_def)
        qed
      qed
    qed
  qed
qed

lemma logPost_frame:
  "published (logPost J E wk result w) = published w"
  "logFile (logPost J E wk result w) =
     (if fsWritable E
      then appendFile (logFile w) (JSON_stringify J (logEntry E wk result) @ [newline])
      else logFile w)"
  by (simp_all add: logPost_def)

lemma appendFile_changes: "appendFile f (t @ [newline]) \<noteq> f"
  by (cases f) (simp_all add: appendFile_def)

lemma pipeline_log_changed:
  assumes "logFile (snd (publishSundayWalkPost J E w)) \<noteq> logFile w"
  obtains wk w1 img result where "generateBestWalk J E 1 w = (Inr wk, w1)"
    and "generateIllustration E wk (fetchWeatherSummary E wk) = Inr img"
    and "NODE_ENV E \<noteq> Some ''development''"
    and "postToInstagram E (url img) (localPath img)
           (buildCaption E wk (fetchWeatherSummary E wk)) w1
         = (Inr result, w1\<lparr>published := published w1 @
              [(url img, buildCaption E wk (fetchWeatherSummary E wk))]\<rparr>)"
    and "fsWritable E"
    and "publishSundayWalkPost J E w =
           (Inr \<lparr>success = True, mode = ''production'', r_walk = titleOf wk,
                 r_image = None, postId = post_id result\<rparr>,
            logPost J E wk result (w1\<lparr>published := published w1 @
              [(url img, buildCaption E wk (fetchWeatherSummary E wk))]\<rparr>))"
proof (cases rule: pipeline_cases[of J E w])
  case (generation e w1)
  with assms show ?thesis by (simp add: generateBestWalk_frame)
next
  case (illustration wk w1 e)
  with assms show ?thesis by (simp add: generateBestWalk_frame)
next
  case (caption_file wk w1 img e)
  with assms show ?thesis by (simp add: generateBestWalk_frame)
next
  case (development wk w1 img)
  with assms show ?thesis by (simp add: generateBestWalk_frame)
next
  case (publish_failed wk w1 img e w2)
  from publish_failed(4) have "w2 = w1" by (rule postToInstagram_failed)
  with publish_failed assms show ?thesis by (simp add: generateBestWalk_frame)
next
  case (published wk w1 img result w2)
  note w2 = postToInstagram_posted[OF published(4)]
  have "fsWritable E"
  proof (rule ccontr)
    assume "\<not> fsWritable E"
    with published(1,5) w2 assms show False
      by (simp add: logPost_frame generateBestWalk_frame)
  qed
  with published w2 show ?thesis using that by simp
qed

subsection \<open>The entry \<open>logPost\<close> writes\<close>

lemma flatEntry_logEntry:
  "end_pub_name (data wk) = Some (JStr p) \<Longrightarrow> flatEntry (logEntry E wk r)"
  by (auto simp: flatEntry_def flatValue_def plainKey_def logEntry_def strProp_def valProp_def
      split: option.splits)

lemma pubProp_logEntry: "pubProp (logEntry E wk r) = end_pub_name (data wk)"
  by (auto simp: pubProp_def logEntry_def strProp_def valProp_def split: option.splits)

lemma appendFile_logText:
  "appendFile (logText J es) (JSON_stringify J e @ [newline]) = logText J (es @ [e])"
  by (simp add: appendFile_def logText_def)

lemma logPost_logText:
  "fsWritable E \<Longrightarrow> logFile w = logText J es
   \<Longrightarrow> logFile (logPost J E wk r w) = logText J (es @ [logEntry E wk r])"
  by (simp add: logPost_frame appendFile_logText)

lemma setAdd_JStr: "JStr p \<in> set (setAdd acc x) \<longleftrightarrow> JStr p \<in> set acc \<or> x = JStr p"
  by (auto simp: setAdd_def list_ex_iff sameValueZero_JStr)

lemma foldl_setAdd_JStr:
  "JStr p \<in> set (foldl setAdd acc xs) \<longleftrightarrow> JStr p \<in> set acc \<or> JStr p \<in> set xs"
  by (induction xs arbitrary: acc) (auto simp: setAdd_JStr)

lemma uniq_JStr: "JStr p \<in> set (uniq xs) \<longleftrightarrow> JStr p \<in> set xs"
  by (simp add: uniq_def foldl_setAdd_JStr)

lemma pubNames_append: "pubNames (es @ es') = pubNames es @ pubNames es'"
  by (simp add: pubNames_def)

lemma pubNames_logEntry:
  "end_pub_name (data wk) = Some (JStr p) \<Longrightarrow> p \<noteq> []
   \<Longrightarrow> pubNames [logEntry E wk r] = [JStr p]"
  by (simp add: pubNames_def pubProp_logEntry)

subsection \<open>A run keeps the log free of duplicates\<close>

lemma generateBestWalk_once:
  "generateBestWalk J E 1 w =
     (case generateWalk J E 5 1 w of
        (Inl e, w1) \<Rightarrow> (Inl NoWalks, w1)
      | (Inr wk, w1) \<Rightarrow> (Inr wk, w1))"
  by (simp add: generateBestWalk_def split: prod.splits sum.splits)

lemma generateBestWalk_result:
  assumes "generateBestWalk J E 1 w = (Inr wk, w1)"
  shows "\<exists>v. end_pub_name (data wk) = Some v \<and> truthy (Some v)
             \<and> \<not> arrIncludes (getUsedPubs J E w) (Some v)
             \<and> (\<exists>n. ai E n (getUsedPubs J E w) = Inr (data wk))"
proof -
  from assms[unfolded generateBestWalk_once] have g: "generateWalk J E 5 1 w = (Inr wk, w1)"
    by (auto split: prod.splits sum.splits)
  from generateWalk_frame[of J E 5 1 w] g have "logFile w1 = logFile w" by simp
  then have "getUsedPubs J E w1 = getUsedPubs J E w" by (rule getUsedPubs_logFile)
  with generateWalk_result[OF g] show ?thesis by simp
qed

lemma pipeline_appends:
  assumes "logFile (snd (publishSundayWalkPost J E w)) \<noteq> logFile w"
  shows "\<exists>wk result v.
           end_pub_name (data wk) = Some v \<and> truthy (Some v)
           \<and> \<not> arrIncludes (getUsedPubs J E w) (Some v)
           \<and> (\<exists>n. ai E n (getUsedPubs J E w) = Inr (data wk))
           \<and> pubProp (logEntry E wk result) = Some v
           \<and> logFile (snd (publishSundayWalkPost J E w))
               = appendFile (logFile w) (JSON_stringify J (logEntry E wk result) @ [newline])
           \<and> length (published (snd (publishSundayWalkPost J E w))) = Suc (length (published w))
           \<and> succeeded (fst (publishSundayWalkPost J E w))"
  using assms
proof (rule pipeline_log_changed)
  fix wk w1 result and img :: image
  assume g: "generateBestWalk J E 1 w = (Inr wk, w1)"
    and wr: "fsWritable E"
    and r: "publishSundayWalkPost J E w =
           (Inr \<lparr>success = True, mode = ''production'', r_walk = titleOf wk,
                 r_image = None, postId = post_id result\<rparr>,
            logPost J E wk result (w1\<lparr>published := published w1 @
              [(url img, buildCaption E wk (fetchWeatherSummary E wk))]\<rparr>))"
  from generateBestWalk_result[OF g] obtain v n where v: "end_pub_name (data wk) = Some v"
    "truthy (Some v)" "\<not> arrIncludes (getUsedPubs J E w) (Some v)"
    "ai E n (getUsedPubs J E w) = Inr (data wk)" by blast
  from v(1) have "pubProp (logEntry E wk result) = Some v"
    by (simp add: pubProp_logEntry)
  with v r wr generateBestWalk_frame[OF g] show ?thesis
    by (intro exI[of _ wk] exI[of _ result] exI[of _ v])
       (auto simp: logPost_frame succeeded_def)
qed

lemma pipeline_keeps_dedup:
  assumes "codec_ok J" and "fsReadable E" and "stringNames E"
    and "list_all flatEntry es" and "logFile w = logText J es" and "distinct (pubNames es)"
  shows "\<exists>new. logFile (snd (publishSundayWalkPost J E w)) = logText J (es @ new)
               \<and> list_all flatEntry (es @ new) \<and> distinct (pubNames (es @ new))"
proof (cases "logFile (snd (publishSundayWalkPost J E w)) = logFile w")
  case True
  with assms show ?thesis by (intro exI[of _ "[]"]) simp
next
  case False
  from pipeline_appends[OF False] obtain wk result v n where
    v: "end_pub_name (data wk) = Some v" "truthy (Some v)"
      "\<not> arrIncludes (getUsedPubs J E w) (Some v)"
      "ai E n (getUsedPubs J E w) = Inr (data wk)"
    and l: "logFile (snd (publishSundayWalkPost J E w))
               = appendFile (logFile w) (JSON_stringify J (logEntry E wk result) @ [newline])"
    by blast
  from assms(3) v(4) obtain p where "end_pub_name (data wk) = Some (JStr p)"
    unfolding stringNames_def by blast
  with v(1) have p: "v = JStr p" by simp
  with v(2) have ne: "p \<noteq> []" by simp
  from getUsedPubs_logText[OF assms(1,4,2,5)] v(3) p
  have "JStr p \<notin> set (pubNames es)"
    by (simp add: arrIncludes_JStr uniq_JStr del: arrIncludes.simps)
  moreover from v(1) p ne have "pubNames [logEntry E wk result] = [JStr p]"
    by (simp add: pubNames_logEntry)
  ultimately have "distinct (pubNames (es @ [logEntry E wk result]))"
    using assms(6) by (simp add: pubNames_append)
  moreover from l assms(5)
  have "logFile (snd (publishSundayWalkPost J E w)) = logText J (es @ [logEntry E wk result])"
    by (simp add: appendFile_logText)
  moreover from v(1) p have "flatEntry (logEntry E wk result)"
    by (simp add: flatEntry_logEntry)
  ultimately show ?thesis
    using assms(4) by (intro exI[of _ "[logEntry E wk result]"]) simp
qed

lemma runs_keep_dedup:
  assumes "codec_ok J"
  shows "list_all (\<lambda>E. fsReadable E \<and> stringNames E) Es \<Longrightarrow> list_all flatEntry es
    \<Longrightarrow> logFile w = logText J es \<Longrightarrow> distinct (pubNames es)
    \<Longrightarrow> \<exists>new. logFile (runs J Es w) = logText J (es @ new)
               \<and> list_all flatEntry (es @ new) \<and> distinct (pubNames (es @ new))"
proof (induction Es arbitrary: es w)
  case Nil
  then show ?case by (intro exI[of _ "[]"]) simp
next
  case (Cons E Es)
  from Cons.prems(1) have r: "fsReadable E" "stringNames E"
    "list_all (\<lambda>E. fsReadable E \<and> stringNames E) Es" by simp_all
  from pipeline_keeps_dedup[OF assms r(1,2) Cons.prems(2,3,4)] obtain new where
    n: "logFile (snd (publishSundayWalkPost J E w)) = logText J (es @ new)"
      "list_all flatEntry (es @ new)" "distinct (pubNames (es @ new))" by blast
  from Cons.IH[OF r(3) n(2) n(1) n(3)] obtain new' where
    "logFile (runs J Es (snd (publishSundayWalkPost J E w))) = logText J ((es @ new) @ new')"
    "list_all flatEntry ((es @ new) @ new')" "distinct (pubNames ((es @ new) @ new'))" by blast
  then show ?case by (intro exI[of _ "new @ new'"]) simp
qed

lemma readable_runs_keep_dedup:
  assumes "codec_ok J" and "list_all (\<lambda>E. fsReadable E \<and> stringNames E) Es"
    and "list_all flatEntry es" and "logFile w = logText J es" and "distinct (pubNames es)"
  shows "noDuplicatePubs J (logFile (runs J Es w))
    \<and> (\<exists>new. postLog J (logFile (runs J Es w)) = Some (es @ new))"
proof -
  from runs_keep_dedup[OF assms] obtain new where
    n: "logFile (runs J Es w) = logText J (es @ new)"
      "list_all flatEntry (es @ new)" "distinct (pubNames (es @ new))" by blast
  from postLog_logText[OF assms(1) n(2)] n(1)
  have p: "postLog J (logFile (runs J Es w)) = Some (es @ new)" by simp
  with n(3) show ?thesis by (simp add: noDuplicatePubs_def)
qed

subsection \<open>Facts about the concrete runs\<close>

lemma getUsedPubs_crownLogged:
  "fsReadable E \<Longrightarrow> logFile w = logText miniJSON [crownEntry]
   \<Longrightarrow> getUsedPubs miniJSON E w = [JStr ''The Crown'']"
  using getUsedPubs_logText[OF codec_ok_miniJSON, of "[crownEntry]" E w]
  by (simp add: crownEntry_def flatEntry_def flatValue_def plainKey_def pubNames_def pubProp_def
      uniq_def setAdd_def)

lemma formatWalkData_crownData:
  "now E = 7 \<Longrightarrow> formatWalkData E crownData = Inr crownWalk"
  by (simp add: formatWalkData_def crownData_def crownWalk_def required_def
        truthyStr_def truthyNum_def truthyObj_def decimal.simps slugify_def stripDash_def
        lowerAscii_def isAlnum_def Let_def char_of_def bit_Suc_0_iff)

lemma formatWalkData_anchorNoHighlights:
  "formatWalkData E anchorNoHighlights = Inl (MissingField ''highlights'')"
  by (simp add: formatWalkData_def required_def truthyStr_def truthyNum_def truthyObj_def
        Let_def crownData_def anchorNoHighlights_def)

lemma generateBestWalk_crown:
  assumes "ai E = (\<lambda>n used. Inr crownData)" and "now E = 7" and "isSet (OPENAI_API_KEY E)"
    and "logFile w = None"
  shows "generateBestWalk J E 1 w
     = (Inr crownWalk, w\<lparr>openaiClient := True, aiCalls := Suc (aiCalls w)\<rparr>)"
proof -
  from assms have "generateWalk J E 5 (Suc 0) w
     = (Inr crownWalk, w\<lparr>openaiClient := True, aiCalls := Suc (aiCalls w)\<rparr>)"
    by (subst generateWalk.simps)
      (simp add: getUsedPubs_no_log getOpenAIClient_def formatWalkData_crownData arrIncludes_Nil)
  then show ?thesis by (simp add: generateBestWalk_def)
qed

lemma generateBestWalk_crown_unused:
  assumes "ai E = (\<lambda>n used. Inr crownData)" and "now E = 7" and "isSet (OPENAI_API_KEY E)"
    and "getUsedPubs J E w = []"
  shows "generateBestWalk J E 1 w
     = (Inr crownWalk, w\<lparr>openaiClient := True, aiCalls := Suc (aiCalls w)\<rparr>)"
proof -
  from assms have "generateWalk J E 5 (Suc 0) w
     = (Inr crownWalk, w\<lparr>openaiClient := True, aiCalls := Suc (aiCalls w)\<rparr>)"
    by (subst generateWalk.simps)
      (simp add: getOpenAIClient_def formatWalkData_crownData arrIncludes_Nil)
  then show ?thesis by (simp add: generateBestWalk_def)
qed

lemma crown_run:
  assumes "getUsedPubs miniJSON (exEnv\<lparr>fsReadable := b\<rparr>) w = []"
  shows "snd (publishSundayWalkPost miniJSON (exEnv\<lparr>fsReadable := b\<rparr>) w)
     = w\<lparr>openaiClient := True, aiCalls := Suc (aiCalls w),
          published := published w @ [(''https://bot/images/w.png'', ''SUNDAY PUB WALK'')],
          logFile := appendFile (logFile w) (miniStringify crownPost @ [newline])\<rparr>"
proof -
  let ?E = "exEnv\<lparr>fsReadable := b\<rparr>"
  have g: "generateBestWalk miniJSON ?E 1 w
     = (Inr crownWalk, w\<lparr>openaiClient := True, aiCalls := Suc (aiCalls w)\<rparr>)"
    using assms by (intro generateBestWalk_crown_unused) (simp_all add: exEnv_def isSet_def)
  have e: "logEntry ?E crownWalk r = logEntry exEnv crownWalk r" for r
    by (simp add: logEntry_def exEnv_def)
  let ?img = "\<lparr>url = ''https://bot/images/w.png'', localPath = ''/generated/w.png''\<rparr>"
  let ?res = "\<lparr>post_id = Some ''post-1''\<rparr>"
  have i: "generateIllustration exEnv crownWalk (fetchWeatherSummary exEnv crownWalk) = Inr ?img"
    by (simp add: exEnv_def)
  have c: "buildCaption exEnv crownWalk (fetchWeatherSummary exEnv crownWalk) = ''SUNDAY PUB WALK''"
    by (simp add: exEnv_def)
  have m: "NODE_ENV exEnv \<noteq> Some ''development''"
    by (simp add: exEnv_def)
  have p: "postToInstagram ?E ''https://bot/images/w.png'' ''/generated/w.png'' ''SUNDAY PUB WALK'' w'
     = (Inr ?res, w'\<lparr>published := published w' @
          [(''https://bot/images/w.png'', ''SUNDAY PUB WALK'')]\<rparr>)" for w'
    by (simp add: postToInstagram_def exEnv_def isSet_def)
  have lp: "logPost miniJSON ?E crownWalk ?res w'
     = w'\<lparr>logFile := appendFile (logFile w') (miniStringify crownPost @ [newline])\<rparr>" for w'
    unfolding logPost_def e crownPost_def by (simp add: exEnv_def miniJSON_def)
  show ?thesis
    unfolding publishSundayWalkPost_def g
    by (simp add: Let_def i c m p lp)
qed

lemma flatEntry_crownPost: "flatEntry crownPost"
  by (simp add: crownPost_def flatEntry_logEntry[of _ "''The Crown''"] crownWalk_def crownData_def)

lemma pubNames_crownPost: "pubNames [crownPost] = [JStr ''The Crown'']"
  by (simp add: crownPost_def pubNames_logEntry[of _ "''The Crown''"] crownWalk_def crownData_def)

lemma getUsedPubs_garbledLog: "getUsedPubs miniJSON E garbledLog = []"
proof -
  have fl: "flatEntry crownEntry"
    by (simp add: crownEntry_def flatEntry_def flatValue_def plainKey_def)
  have "cleanLine ''{oops''"
    by (simp add: cleanLine_def newline_def whiteSpace_def startsWith_def)
  with miniStringify_clean[OF fl]
  have "split_nl (trim (concat (map (\<lambda>l. l @ [newline]) [miniStringify crownEntry, ''{oops''])))
        = [miniStringify crownEntry, ''{oops'']"
    by (intro lines_of_log) simp_all
  moreover have "miniParse ''{oops'' = None"
    by (simp add: miniParse_def dquote_def)
  ultimately have "isl (readUsedPubs miniJSON E garbledLog)"
    unfolding readUsedPubs_throws
    by (simp add: garbledLog_def freshWorld_def miniJSON_def)
  then show ?thesis
    by (cases "readUsedPubs miniJSON E garbledLog") (simp_all add: getUsedPubs_def)
qed

lemma formatWalkData_listedCrownData:
  "now E = 7 \<Longrightarrow> formatWalkData E listedCrownData = Inr listedCrownWalk"
  by (simp add: formatWalkData_def listedCrownData_def crownData_def listedCrownWalk_def required_def
        truthyStr_def truthyNum_def truthyObj_def decimal.simps slugify_def stripDash_def
        lowerAscii_def isAlnum_def Let_def char_of_def bit_Suc_0_iff)

lemma listed_run:
  "snd (publishSundayWalkPost J listedEnv w)
     = w\<lparr>openaiClient := True, aiCalls := Suc (aiCalls w),
          published := published w @ [(''https://bot/images/w.png'', ''SUNDAY PUB WALK'')],
          logFile := appendFile (logFile w) (JSON_stringify J listedCrownPost @ [newline])\<rparr>"
proof -
  have n: "\<not> arrIncludes U (Some (JArr [JStr ''The Crown'']))" for U
    by (simp add: list_ex_iff)
  have f: "formatWalkData listedEnv listedCrownData = Inr listedCrownWalk"
    by (rule formatWalkData_listedCrownData) (simp add: listedEnv_def exEnv_def)
  have a: "ai listedEnv = (\<lambda>n used. Inr listedCrownData)"
    by (simp add: listedEnv_def)
  have k: "isSet (OPENAI_API_KEY listedEnv)"
    by (simp add: listedEnv_def exEnv_def isSet_def)
  have v: "end_pub_name listedCrownData = Some (JArr [JStr ''The Crown''])"
    by (simp add: listedCrownData_def)
  have "generateWalk J listedEnv 5 (Suc 0) w
     = (Inr listedCrownWalk, w\<lparr>openaiClient := True, aiCalls := Suc (aiCalls w)\<rparr>)"
    by (subst generateWalk.simps)
      (simp add: getOpenAIClient_def a k v f n Let_def del: arrIncludes.simps)
  then have g: "generateBestWalk J listedEnv 1 w
     = (Inr listedCrownWalk, w\<lparr>openaiClient := True, aiCalls := Suc (aiCalls w)\<rparr>)"
    by (simp add: generateBestWalk_def)
  have e: "logEntry listedEnv listedCrownWalk r = logEntry exEnv listedCrownWalk r" for r
    by (simp add: logEntry_def listedEnv_def)
  let ?img = "\<lparr>url = ''https://bot/images/w.png'', localPath = ''/generated/w.png''\<rparr>"
  let ?res = "\<lparr>post_id = Some ''post-1''\<rparr>"
  have i: "generateIllustration listedEnv listedCrownWalk
             (fetchWeatherSummary listedEnv listedCrownWalk) = Inr ?img"
    by (simp add: listedEnv_def exEnv_def)
  have c: "buildCaption listedEnv listedCrownWalk (fetchWeatherSummary listedEnv listedCrownWalk)
             = ''SUNDAY PUB WALK''"
    by (simp add: listedEnv_def exEnv_def)
  have m: "NODE_ENV listedEnv \<noteq> Some ''development''"
    by (simp add: listedEnv_def exEnv_def)
  have p: "postToInstagram listedEnv ''https://bot/images/w.png'' ''/generated/w.png''
             ''SUNDAY PUB WALK'' w'
     = (Inr ?res, w'\<lparr>published := published w' @
          [(''https://bot/images/w.png'', ''SUNDAY PUB WALK'')]\<rparr>)" for w'
    by (simp add: postToInstagram_def listedEnv_def exEnv_def isSet_def)
  have lp: "logPost J listedEnv listedCrownWalk ?res w'
     = w'\<lparr>logFile := appendFile (logFile w') (JSON_stringify J listedCrownPost @ [newline])\<rparr>" for w'
    unfolding logPost_def e listedCrownPost_def by (simp add: listedEnv_def exEnv_def)
  show ?thesis
    unfolding publishSundayWalkPost_def g
    by (simp add: Let_def i c m p lp)
qed

section \<open>The claims\<close>

subsection \<open>The dedup invariant\<close>

text \<open>
  C1. The claim is that for every sequence of successful publication runs no two entries
  of the log share a \<open>pubName\<close>. The program works towards it: with a log that is read
  and pub names that are strings the invariant is kept (\<open>readable_runs_keep_dedup\<close> and
  \<open>pipeline_appends\<close> above). It loses the invariant in three ways. In the runs below the
  AI model answers every call with The Crown.

  For comparison, two runs with the log readable: the second run finds The Crown among
  the used pubs at every attempt and ends with \<open>NoWalks\<close>, and the log holds The Crown
  once. The same two runs, the second unable to read the log that the first wrote:
  \<open>getUsedPubs\<close> answers the empty list, The Crown is accepted again, published and
  logged; both runs are successful publications, and the log holds two entries with the
  \<open>pubName\<close> The Crown. A run on a log that holds The Crown and a line that is not JSON:
  the read answers the empty list as well, and The Crown is published and appended
  again. Two runs, whatever the JSON runtime, with the pub name of the reply in an array:
  an array is never found among the used pubs, both runs publish, and both append the
  same line.
\<close>

theorem dedup_invariant_lost:
  "postLog miniJSON (logFile (runs miniJSON [exEnv, exEnv] freshWorld)) = Some [crownPost]
   \<and> fst (publishSundayWalkPost miniJSON exEnv (runs miniJSON [exEnv] freshWorld)) = Inl NoWalks
   \<and> postLog miniJSON (logFile (runs miniJSON [exEnv, exEnv\<lparr>fsReadable := False\<rparr>] freshWorld))
       = Some [crownPost, crownPost]
   \<and> pubNames [crownPost, crownPost] = [JStr ''The Crown'', JStr ''The Crown'']
   \<and> \<not> noDuplicatePubs miniJSON
         (logFile (runs miniJSON [exEnv, exEnv\<lparr>fsReadable := False\<rparr>] freshWorld))
   \<and> length (published (runs miniJSON [exEnv, exEnv\<lparr>fsReadable := False\<rparr>] freshWorld)) = 2
   \<and> getUsedPubs miniJSON exEnv crownLogged = [JStr ''The Crown'']
   \<and> logFile garbledLog = Some (miniStringify crownEntry @ [newline] @ ''{oops'' @ [newline])
   \<and> logFile (runs miniJSON [exEnv] garbledLog)
       = Some (miniStringify crownEntry @ [newline] @ ''{oops'' @ [newline]
               @ miniStringify crownPost @ [newline])
   \<and> length (published (runs miniJSON [exEnv] garbledLog)) = 1
   \<and> logFile (runs J [listedEnv, listedEnv] freshWorld)
       = Some (JSON_stringify J listedCrownPost @ [newline]
               @ JSON_stringify J listedCrownPost @ [newline])
   \<and> pubProp listedCrownPost = Some (JArr [JStr ''The Crown''])
   \<and> length (published (runs J [listedEnv, listedEnv] freshWorld)) = 2"
proof -
  let ?w1 = "snd (publishSundayWalkPost miniJSON exEnv freshWorld)"
  let ?w2 = "snd (publishSundayWalkPost miniJSON (exEnv\<lparr>fsReadable := False\<rparr>) ?w1)"
  have ex: "exEnv\<lparr>fsReadable := True\<rparr> = exEnv" by (simp add: exEnv_def)
  have "getUsedPubs miniJSON (exEnv\<lparr>fsReadable := True\<rparr>) freshWorld = []"
    by (rule getUsedPubs_no_log) (simp add: freshWorld_def)
  from crown_run[OF this] have w1: "?w1 = freshWorld\<lparr>openaiClient := True, aiCalls := 1,
          published := [(''https://bot/images/w.png'', ''SUNDAY PUB WALK'')],
          logFile := logText miniJSON [crownPost]\<rparr>"
    unfolding ex by (simp add: freshWorld_def appendFile_def logText_def miniJSON_def)
  then have l1: "logFile ?w1 = logText miniJSON [crownPost]" by simp
  have u: "getUsedPubs miniJSON exEnv ?w1 = [JStr ''The Crown'']"
    using getUsedPubs_logText[OF codec_ok_miniJSON, of "[crownPost]" exEnv ?w1]
    by (simp add: w1 flatEntry_crownPost pubNames_crownPost uniq_def setAdd_def) (simp add: exEnv_def)
  have "\<forall>n. \<exists>d. ai exEnv n [JStr ''The Crown''] = Inr d
           \<and> arrIncludes [JStr ''The Crown''] (end_pub_name d)"
    by (simp add: exEnv_def crownData_def)
  from generateWalk_all_collide[OF this u, of 5 1]
  have "fst (generateWalk miniJSON exEnv 5 1 ?w1) = Inl MaxAttempts"
    by (simp add: exEnv_def isSet_def)
  then have g: "fst (generateBestWalk miniJSON exEnv 1 ?w1) = Inl NoWalks"
    unfolding generateBestWalk_once by (auto split: prod.splits sum.splits)
  have r2: "fst (publishSundayWalkPost miniJSON exEnv ?w1) = Inl NoWalks
     \<and> logFile (snd (publishSundayWalkPost miniJSON exEnv ?w1)) = logFile ?w1"
  proof (cases rule: pipeline_cases[of miniJSON exEnv ?w1])
    case (generation e w1)
    with g show ?thesis by (simp add: generateBestWalk_frame)
  qed (use g in simp_all)
  have p1: "postLog miniJSON (logText miniJSON [crownPost]) = Some [crownPost]"
    by (rule postLog_logText[OF codec_ok_miniJSON]) (simp add: flatEntry_crownPost)
  from r2 l1 p1 have a: "postLog miniJSON (logFile (runs miniJSON [exEnv, exEnv] freshWorld))
      = Some [crownPost]
    \<and> fst (publishSundayWalkPost miniJSON exEnv (runs miniJSON [exEnv] freshWorld)) = Inl NoWalks"
    by simp
  have "getUsedPubs miniJSON (exEnv\<lparr>fsReadable := False\<rparr>) ?w1 = []"
    using l1 by (simp add: getUsedPubs_def readUsedPubs_def readFile_def logText_def)
  note w2 = crown_run[OF this]
  from w2 l1 have l2: "logFile ?w2 = logText miniJSON [crownPost, crownPost]"
    by (simp add: appendFile_def logText_def miniJSON_def)
  have p: "postLog miniJSON (logFile ?w2) = Some [crownPost, crownPost]"
    unfolding l2 by (rule postLog_logText[OF codec_ok_miniJSON]) (simp add: flatEntry_crownPost)
  have n: "pubNames [crownPost, crownPost] = [JStr ''The Crown'', JStr ''The Crown'']"
    using pubNames_append[of "[crownPost]" "[crownPost]"] by (simp add: pubNames_crownPost)
  from w2 w1 have "length (published ?w2) = 2" by simp
  with p n have b: "postLog miniJSON
        (logFile (runs miniJSON [exEnv, exEnv\<lparr>fsReadable := False\<rparr>] freshWorld))
       = Some [crownPost, crownPost]
   \<and> pubNames [crownPost, crownPost] = [JStr ''The Crown'', JStr ''The Crown'']
   \<and> \<not> noDuplicatePubs miniJSON
         (logFile (runs miniJSON [exEnv, exEnv\<lparr>fsReadable := False\<rparr>] freshWorld))
   \<and> length (published (runs miniJSON [exEnv, exEnv\<lparr>fsReadable := False\<rparr>] freshWorld)) = 2"
    by (simp add: noDuplicatePubs_def)
  have uC: "getUsedPubs miniJSON exEnv crownLogged = [JStr ''The Crown'']"
    by (rule getUsedPubs_crownLogged) (simp_all add: exEnv_def crownLogged_def)
  have "getUsedPubs miniJSON (exEnv\<lparr>fsReadable := True\<rparr>) garbledLog = []"
    by (rule getUsedPubs_garbledLog)
  from crown_run[OF this]
  have c: "logFile garbledLog = Some (miniStringify crownEntry @ [newline] @ ''{oops'' @ [newline])
   \<and> logFile (runs miniJSON [exEnv] garbledLog)
       = Some (miniStringify crownEntry @ [newline] @ ''{oops'' @ [newline]
               @ miniStringify crownPost @ [newline])
   \<and> length (published (runs miniJSON [exEnv] garbledLog)) = 1"
    unfolding ex by (simp add: garbledLog_def freshWorld_def appendFile_def)
  have d: "logFile (runs J [listedEnv, listedEnv] freshWorld)
       = Some (JSON_stringify J listedCrownPost @ [newline]
               @ JSON_stringify J listedCrownPost @ [newline])
   \<and> pubProp listedCrownPost = Some (JArr [JStr ''The Crown''])
   \<and> length (published (runs J [listedEnv, listedEnv] freshWorld)) = 2"
    by (simp add: listed_run freshWorld_def appendFile_def listedCrownPost_def pubProp_logEntry
        listedCrownWalk_def listedCrownData_def)
  from a b uC c d show ?thesis by (intro conjI) simp_all
qed

subsection \<open>The contract of \<open>generateWalk\<close>\<close>

text \<open>
  C2, as amended. \<open>generateWalk(maxAttempts = k)\<close> makes at most \<open>k\<close> calls to the AI
  model and leaves the log as it is. The function is total: each recursive call has a
  larger attempt counter, and none is made beyond \<open>k\<close>. It returns a proposal whose
  \<open>end_pub_name\<close> is not among the used pubs read from that log, or it throws; what it
  throws is the exhausted-retries error, or the error of the step that failed in its
  last attempt, passed on unchanged.

  In full, with \<open>U\<close> the used pubs read from the log, the same at every attempt, and
  \<open>c\<close> the number of calls made to the AI model before: with \<open>k = 0\<close> it throws the exhausted-retries error at
  once. With \<open>k > 0\<close> and neither a client nor an API key, it throws the missing-key
  error and makes no call. Otherwise there is a number \<open>j \<le> k\<close> of attempts whose
  replies all named a pub in \<open>U\<close>; when \<open>j = k\<close> it throws the exhausted-retries error
  after exactly \<open>k\<close> calls; when \<open>j < k\<close>, attempt \<open>j + 1\<close> is the last, \<open>j + 1\<close>
  calls have been made, and the outcome is that attempt's: the error of the AI call when
  the call failed, and otherwise, the reply naming a pub that is not in \<open>U\<close>, what
  \<open>formatWalkData\<close> makes of that reply, the walk or the validation error.

  With a client at hand and an AI model that answers every call with a pub that is
  already used, it throws the exhausted-retries error after exactly \<open>k\<close> calls.
\<close>

theorem generateWalk_contract:
  "aiCalls (snd (generateWalk J E k 1 w)) \<le> aiCalls w + k
   \<and> logFile (snd (generateWalk J E k 1 w)) = logFile w
   \<and> getUsedPubs J E (snd (generateWalk J E k 1 w)) = getUsedPubs J E w
   \<and> (\<forall>wk. fst (generateWalk J E k 1 w) = Inr wk \<longrightarrow>
         (\<exists>v. end_pub_name (data wk) = Some v
              \<and> \<not> arrIncludes (getUsedPubs J E w) (Some v)))
   \<and> (k = 0 \<longrightarrow> generateWalk J E k 1 w = (Inl MaxAttempts, w))
   \<and> (0 < k \<and> \<not> (isSet (OPENAI_API_KEY E) \<or> openaiClient w) \<longrightarrow>
         generateWalk J E k 1 w
           = (Inl (Thrown ''OPENAI_API_KEY environment variable is not set''), w))
   \<and> (0 < k \<and> (isSet (OPENAI_API_KEY E) \<or> openaiClient w) \<longrightarrow>
         (\<exists>j \<le> k.
            (\<forall>i < j. \<exists>d. ai E (aiCalls w + i) (getUsedPubs J E w) = Inr d
                          \<and> arrIncludes (getUsedPubs J E w) (end_pub_name d))
            \<and> (if j = k
                 then generateWalk J E k 1 w
                        = (Inl MaxAttempts, w\<lparr>openaiClient := True, aiCalls := aiCalls w + k\<rparr>)
                 else (\<exists>e. ai E (aiCalls w + j) (getUsedPubs J E w) = Inl e
                            \<and> generateWalk J E k 1 w
                                = (Inl e, w\<lparr>openaiClient := True,
                                             aiCalls := Suc (aiCalls w + j)\<rparr>))
                    \<or> (\<exists>d. ai E (aiCalls w + j) (getUsedPubs J E w) = Inr d
                            \<and> \<not> arrIncludes (getUsedPubs J E w) (end_pub_name d)
                            \<and> generateWalk J E k 1 w
                                = (formatWalkData E d,
                                   w\<lparr>openaiClient := True,
                                     aiCalls := Suc (aiCalls w + j)\<rparr>)))))
   \<and> ((isSet (OPENAI_API_KEY E) \<or> openaiClient w)
        \<and> (\<forall>n. \<exists>d. ai E n (getUsedPubs J E w) = Inr d
                  \<and> arrIncludes (getUsedPubs J E w) (end_pub_name d))
        \<longrightarrow> fst (generateWalk J E k 1 w) = Inl MaxAttempts
            \<and> aiCalls (snd (generateWalk J E k 1 w)) = aiCalls w + k)"
proof -
  obtain r w' where g: "generateWalk J E k 1 w = (r, w')"
    by (cases "generateWalk J E k 1 w")
  have calls: "aiCalls w' \<le> aiCalls w + k"
    using generateWalk_aiCalls[of w J E k 1] g by simp
  have frame: "logFile w' = logFile w"
    using generateWalk_frame[of J E k 1 w] g by simp
  then have u: "getUsedPubs J E w' = getUsedPubs J E w" by (rule getUsedPubs_logFile)
  have ok: "\<exists>v. end_pub_name (data wk) = Some v
              \<and> \<not> arrIncludes (getUsedPubs J E w) (Some v)" if "r = Inr wk" for wk
    using generateWalk_result[of J E k 1 w wk w'] g that u by auto
  have zero: "(r, w') = (Inl MaxAttempts, w)" if "k = 0"
    using that g[symmetric] by (simp add: generateWalk.simps)
  have key: "(r, w') = (Inl (Thrown ''OPENAI_API_KEY environment variable is not set''), w)"
    if "0 < k" and "\<not> (isSet (OPENAI_API_KEY E) \<or> openaiClient w)"
    using that g[symmetric] by (subst (asm) generateWalk.simps) (simp add: getOpenAIClient_def)
  have trace: "\<exists>j \<le> k.
            (\<forall>i < j. \<exists>d. ai E (aiCalls w + i) (getUsedPubs J E w) = Inr d
                          \<and> arrIncludes (getUsedPubs J E w) (end_pub_name d))
            \<and> (if j = k
                 then (r, w')
                        = (Inl MaxAttempts, w\<lparr>openaiClient := True, aiCalls := aiCalls w + k\<rparr>)
                 else (\<exists>e. ai E (aiCalls w + j) (getUsedPubs J E w) = Inl e
                            \<and> (r, w')
                                = (Inl e, w\<lparr>openaiClient := True,
                                             aiCalls := Suc (aiCalls w + j)\<rparr>))
                    \<or> (\<exists>d. ai E (aiCalls w + j) (getUsedPubs J E w) = Inr d
                            \<and> \<not> arrIncludes (getUsedPubs J E w) (end_pub_name d)
                            \<and> (r, w')
                                = (formatWalkData E d,
                                   w\<lparr>openaiClient := True,
                                     aiCalls := Suc (aiCalls w + j)\<rparr>)))"
    if "0 < k" and "isSet (OPENAI_API_KEY E) \<or> openaiClient w"
  proof -
    from that(1) have "1 \<le> k" "Suc k - 1 = k" by simp_all
    from generateWalk_trace[OF that(2) refl this(1), of J, unfolded this(2) g] show ?thesis
      by (auto split: if_splits)
  qed
  have stub: "r = Inl MaxAttempts \<and> aiCalls w' = aiCalls w + k"
    if "isSet (OPENAI_API_KEY E) \<or> openaiClient w"
      and "\<forall>n. \<exists>d. ai E n (getUsedPubs J E w) = Inr d
                  \<and> arrIncludes (getUsedPubs J E w) (end_pub_name d)"
    using generateWalk_all_collide[OF that(2) refl that(1), of k 1] g by simp
  from calls frame u ok zero key trace stub show ?thesis
    unfolding g by (simp only: fst_conv snd_conv) blast
qed

theorem generateWalk_contract_witness:
  "fst (generateWalk miniJSON exEnv 3 1 crownLogged) = Inl MaxAttempts
   \<and> aiCalls (snd (generateWalk miniJSON exEnv 3 1 crownLogged)) = 3
   \<and> fst (generateWalk miniJSON exEnv 3 1 freshWorld) = Inr crownWalk
   \<and> aiCalls (snd (generateWalk miniJSON exEnv 3 1 freshWorld)) = 1
   \<and> end_pub_name (data crownWalk) = Some (JStr ''The Crown'')
   \<and> \<not> arrIncludes (getUsedPubs miniJSON exEnv freshWorld) (Some (JStr ''The Crown''))
   \<and> generateWalk miniJSON scriptedEnv 3 1 freshWorld
       = (Inl (Thrown ''timeout''), freshWorld\<lparr>openaiClient := True, aiCalls := 1\<rparr>)
   \<and> generateWalk miniJSON (exEnv\<lparr>OPENAI_API_KEY := None\<rparr>) 3 1 freshWorld
       = (Inl (Thrown ''OPENAI_API_KEY environment variable is not set''), freshWorld)"
proof -
  have u: "getUsedPubs miniJSON exEnv crownLogged = [JStr ''The Crown'']"
    by (rule getUsedPubs_crownLogged) (simp_all add: exEnv_def crownLogged_def)
  have "isSet (OPENAI_API_KEY exEnv) \<or> openaiClient crownLogged"
    by (simp add: exEnv_def isSet_def)
  moreover have "\<forall>n. \<exists>d. ai exEnv n (getUsedPubs miniJSON exEnv crownLogged) = Inr d
           \<and> arrIncludes (getUsedPubs miniJSON exEnv crownLogged) (end_pub_name d)"
    by (simp add: u) (simp add: exEnv_def crownData_def)
  ultimately have a: "fst (generateWalk miniJSON exEnv 3 1 crownLogged) = Inl MaxAttempts
   \<and> aiCalls (snd (generateWalk miniJSON exEnv 3 1 crownLogged)) = 3"
    using generateWalk_contract[of miniJSON exEnv 3 crownLogged]
    by (simp add: crownLogged_def freshWorld_def)
  have n: "getUsedPubs miniJSON exEnv freshWorld = []"
    by (rule getUsedPubs_no_log) (simp add: freshWorld_def)
  have f: "formatWalkData exEnv crownData = Inr crownWalk"
    by (rule formatWalkData_crownData) (simp add: exEnv_def)
  have g: "generateWalk miniJSON exEnv 3 (Suc 0) freshWorld
     = (Inr crownWalk, freshWorld\<lparr>openaiClient := True, aiCalls := Suc 0\<rparr>)"
    by (subst generateWalk.simps)
      (simp add: n getOpenAIClient_def arrIncludes_Nil,
       simp add: exEnv_def isSet_def freshWorld_def Let_def arrIncludes_Nil f[unfolded exEnv_def])
  from generateWalk_contract[of miniJSON exEnv 3 freshWorld]
  have "\<exists>v. end_pub_name (data crownWalk) = Some v
      \<and> \<not> arrIncludes (getUsedPubs miniJSON exEnv freshWorld) (Some v)"
    by (simp add: g)
  with g have b: "fst (generateWalk miniJSON exEnv 3 1 freshWorld) = Inr crownWalk
   \<and> aiCalls (snd (generateWalk miniJSON exEnv 3 1 freshWorld)) = 1
   \<and> end_pub_name (data crownWalk) = Some (JStr ''The Crown'')
   \<and> \<not> arrIncludes (getUsedPubs miniJSON exEnv freshWorld) (Some (JStr ''The Crown''))"
    by (simp add: crownWalk_def crownData_def)
  note t = generateWalk_contract[of miniJSON scriptedEnv 3 freshWorld,
      THEN conjunct2, THEN conjunct2, THEN conjunct2, THEN conjunct2, THEN conjunct2,
      THEN conjunct2, THEN conjunct1, THEN mp]
  have "0 < (3::nat) \<and> (isSet (OPENAI_API_KEY scriptedEnv) \<or> openaiClient freshWorld)"
    by (simp add: scriptedEnv_def exEnv_def isSet_def)
  from t[OF this] obtain j where j: "j \<le> 3"
    "\<forall>i < j. \<exists>d. ai scriptedEnv (aiCalls freshWorld + i)
                    (getUsedPubs miniJSON scriptedEnv freshWorld) = Inr d
                  \<and> arrIncludes (getUsedPubs miniJSON scriptedEnv freshWorld) (end_pub_name d)"
    "if j = 3
     then generateWalk miniJSON scriptedEnv 3 1 freshWorld
            = (Inl MaxAttempts, freshWorld\<lparr>openaiClient := True, aiCalls := aiCalls freshWorld + 3\<rparr>)
     else (\<exists>e. ai scriptedEnv (aiCalls freshWorld + j)
                  (getUsedPubs miniJSON scriptedEnv freshWorld) = Inl e
                \<and> generateWalk miniJSON scriptedEnv 3 1 freshWorld
                    = (Inl e, freshWorld\<lparr>openaiClient := True,
                                         aiCalls := Suc (aiCalls freshWorld + j)\<rparr>))
        \<or> (\<exists>d. ai scriptedEnv (aiCalls freshWorld + j)
                  (getUsedPubs miniJSON scriptedEnv freshWorld) = Inr d
                \<and> \<not> arrIncludes (getUsedPubs miniJSON scriptedEnv freshWorld) (end_pub_name d)
                \<and> generateWalk miniJSON scriptedEnv 3 1 freshWorld
                    = (formatWalkData scriptedEnv d,
                       freshWorld\<lparr>openaiClient := True,
                                  aiCalls := Suc (aiCalls freshWorld + j)\<rparr>))"
    by blast
  have a0: "ai scriptedEnv 0 U = Inl (Thrown ''timeout'')" for U
    by (simp add: scriptedEnv_def)
  have c0: "aiCalls freshWorld = 0" by (simp add: freshWorld_def)
  have "j = 0"
  proof (rule ccontr)
    assume "j \<noteq> 0"
    then have "0 < j" by simp
    with j(2) have "\<exists>d. ai scriptedEnv (aiCalls freshWorld + 0)
                    (getUsedPubs miniJSON scriptedEnv freshWorld) = Inr d" by blast
    then show False by (simp add: c0 a0)
  qed
  with j(3) have c: "generateWalk miniJSON scriptedEnv 3 1 freshWorld
       = (Inl (Thrown ''timeout''), freshWorld\<lparr>openaiClient := True, aiCalls := 1\<rparr>)"
    by (simp add: c0 a0)
  have "0 < (3::nat) \<and> \<not> (isSet (OPENAI_API_KEY (exEnv\<lparr>OPENAI_API_KEY := None\<rparr>))
          \<or> openaiClient freshWorld)"
    by (simp add: isSet_def freshWorld_def)
  from generateWalk_contract[of miniJSON "exEnv\<lparr>OPENAI_API_KEY := None\<rparr>" 3 freshWorld,
      THEN conjunct2, THEN conjunct2, THEN conjunct2, THEN conjunct2, THEN conjunct2,
      THEN conjunct1, THEN mp, OF this]
  have d: "generateWalk miniJSON (exEnv\<lparr>OPENAI_API_KEY := None\<rparr>) 3 1 freshWorld
       = (Inl (Thrown ''OPENAI_API_KEY environment variable is not set''), freshWorld)" .
  from a b c d show ?thesis by (intro conjI) simp_all
qed

text \<open>
  As the claim was stated, every throw is the exhausted-retries error. A reply without
  highlights, ending at a pub that was never used, throws the validation error at the
  first attempt.
\<close>

theorem generateWalk_contract_counterexample:
  "fst (generateWalk miniJSON (exEnv\<lparr>ai := \<lambda>n used. Inr anchorNoHighlights\<rparr>) 5 1 freshWorld)
     = Inl (MissingField ''highlights'')"
  by (simp add: generateWalk.simps getUsedPubs_def readUsedPubs_def readFile_def freshWorld_def
      getOpenAIClient_def isSet_def exEnv_def anchorNoHighlights_def crownData_def
      formatWalkData_def required_def truthyStr_def truthyNum_def truthyObj_def Let_def)

subsection \<open>Validation comes after the membership check\<close>

text \<open>
  C3, as amended. In \<open>generateWalk\<close> the used-pub membership check comes before the
  structural validation of \<open>formatWalkData\<close>. For a reply that is structurally invalid:
  when its pub name is not among the used pubs, the attempt fails at once with the
  validation error passed on, after the one AI call of that attempt and without a
  retry; when its pub name is among the used pubs, the attempt takes the pub-collision
  retry path, and the validation error is not raised.
\<close>

theorem validation_after_dedup:
  assumes "\<not> maxAttempts < attempt"
    and "getOpenAIClient E w = (Inr u, w1)"
    and "ai E (aiCalls w1) (getUsedPubs J E w) = Inr d"
    and "formatWalkData E d = Inl e"
  shows "generateWalk J E maxAttempts attempt w =
           (if arrIncludes (getUsedPubs J E w) (end_pub_name d)
            then generateWalk J E maxAttempts (attempt + 1) (w1\<lparr>aiCalls := Suc (aiCalls w1)\<rparr>)
            else (Inl e, w1\<lparr>aiCalls := Suc (aiCalls w1)\<rparr>))"
  using assms by (subst generateWalk.simps) (simp add: Let_def)

theorem validation_after_dedup_witness:
  "generateWalk miniJSON (exEnv\<lparr>ai := \<lambda>n used. Inr anchorNoHighlights\<rparr>) 5 1 crownLogged
     = (Inl (MissingField ''highlights''), crownLogged\<lparr>openaiClient := True, aiCalls := 1\<rparr>)
   \<and> generateWalk miniJSON (exEnv\<lparr>ai := \<lambda>n used. Inr noHighlights\<rparr>) 5 1 crownLogged
     = generateWalk miniJSON (exEnv\<lparr>ai := \<lambda>n used. Inr noHighlights\<rparr>) 5 2
         (crownLogged\<lparr>openaiClient := True, aiCalls := 1\<rparr>)"
proof -
  let ?A = "exEnv\<lparr>ai := \<lambda>n used. Inr anchorNoHighlights\<rparr>"
  let ?C = "exEnv\<lparr>ai := \<lambda>n used. Inr noHighlights\<rparr>"
  let ?w1 = "crownLogged\<lparr>openaiClient := True\<rparr>"
  have le: "\<not> (5::nat) < 1" by simp
  have calls: "?w1\<lparr>aiCalls := Suc (aiCalls ?w1)\<rparr> = crownLogged\<lparr>openaiClient := True, aiCalls := 1\<rparr>"
    by (simp add: crownLogged_def freshWorld_def)
  have uA: "getUsedPubs miniJSON ?A crownLogged = [JStr ''The Crown'']"
    by (rule getUsedPubs_crownLogged) (simp_all add: exEnv_def crownLogged_def)
  have uC: "getUsedPubs miniJSON ?C crownLogged = [JStr ''The Crown'']"
    by (rule getUsedPubs_crownLogged) (simp_all add: exEnv_def crownLogged_def)
  have cA: "getOpenAIClient ?A crownLogged = (Inr (), ?w1)"
    by (simp add: getOpenAIClient_def exEnv_def isSet_def crownLogged_def freshWorld_def)
  have cC: "getOpenAIClient ?C crownLogged = (Inr (), ?w1)"
    by (simp add: getOpenAIClient_def exEnv_def isSet_def crownLogged_def freshWorld_def)
  have aA: "ai ?A (aiCalls ?w1) (getUsedPubs miniJSON ?A crownLogged) = Inr anchorNoHighlights"
    by simp
  have aC: "ai ?C (aiCalls ?w1) (getUsedPubs miniJSON ?C crownLogged) = Inr noHighlights"
    by simp
  have fA: "formatWalkData ?A anchorNoHighlights = Inl (MissingField ''highlights'')"
    by (simp add: formatWalkData_def required_def truthyStr_def truthyNum_def truthyObj_def
        Let_def crownData_def anchorNoHighlights_def)
  have fC: "formatWalkData ?C noHighlights = Inl (MissingField ''highlights'')"
    by (simp add: formatWalkData_def required_def truthyStr_def truthyNum_def truthyObj_def
        Let_def crownData_def noHighlights_def)
  have nA: "\<not> arrIncludes (getUsedPubs miniJSON ?A crownLogged)
              (end_pub_name anchorNoHighlights)"
    unfolding uA by (simp add: anchorNoHighlights_def crownData_def)
  have nC: "arrIncludes (getUsedPubs miniJSON ?C crownLogged)
              (end_pub_name noHighlights)"
    unfolding uC by (simp add: noHighlights_def crownData_def)
  have a: "generateWalk miniJSON ?A 5 1 crownLogged
     = (Inl (MissingField ''highlights''), crownLogged\<lparr>openaiClient := True, aiCalls := 1\<rparr>)"
    unfolding validation_after_dedup[OF le cA aA fA] if_not_P[OF nA] calls ..
  have c: "generateWalk miniJSON ?C 5 1 crownLogged
     = generateWalk miniJSON ?C 5 2 (crownLogged\<lparr>openaiClient := True, aiCalls := 1\<rparr>)"
    by (subst validation_after_dedup[OF le cC aC fC], unfold if_P[OF nC] calls) (simp add: numeral_2_eq_2)
  from a c show ?thesis by (rule conjI)
qed

text \<open>
  As the claim was stated, an invalid reply never takes the retry path. With The Crown
  logged and an AI model that always answers with The Crown and no highlights, five
  calls are made and the run ends with the exhausted-retries error.
\<close>

theorem validation_after_dedup_counterexample:
  "formatWalkData (exEnv\<lparr>ai := \<lambda>n used. Inr noHighlights\<rparr>) noHighlights
     = Inl (MissingField ''highlights'')
   \<and> fst (generateWalk miniJSON (exEnv\<lparr>ai := \<lambda>n used. Inr noHighlights\<rparr>) 5 1 crownLogged)
     = Inl MaxAttempts
   \<and> aiCalls (snd (generateWalk miniJSON (exEnv\<lparr>ai := \<lambda>n used. Inr noHighlights\<rparr>) 5 1 crownLogged))
     = 5"
proof -
  let ?C = "exEnv\<lparr>ai := \<lambda>n used. Inr noHighlights\<rparr>"
  have u: "getUsedPubs miniJSON ?C crownLogged = [JStr ''The Crown'']"
    by (rule getUsedPubs_crownLogged) (simp_all add: exEnv_def crownLogged_def)
  have f: "formatWalkData ?C noHighlights = Inl (MissingField ''highlights'')"
    by (simp add: formatWalkData_def required_def truthyStr_def truthyNum_def truthyObj_def
        Let_def crownData_def noHighlights_def)
  have "\<forall>n. \<exists>d. ai ?C n [JStr ''The Crown''] = Inr d
           \<and> arrIncludes [JStr ''The Crown''] (end_pub_name d)"
    by (simp add: noHighlights_def crownData_def)
  from generateWalk_all_collide[OF this u, of 5 1] f show ?thesis
    by (simp add: exEnv_def isSet_def crownLogged_def freshWorld_def)
qed

subsection \<open>The contract of \<open>generateBestWalk\<close>\<close>

text \<open>
  C4. \<open>generateBestWalk(n)\<close> makes all \<open>n\<close> generator runs, one after the other: the
  world it leaves is the world after \<open>n\<close> runs of \<open>generateWalk()\<close>, whether runs threw
  or not. Its result is the first run that succeeded, in the order of the runs, whatever
  the runs before it threw; when no run succeeded it throws the all-options-exhausted
  error \<open>NoWalks\<close>.
\<close>

theorem generateBestWalk_contract:
  "length (fst (walkRuns J E n w)) = n
   \<and> snd (generateBestWalk J E n w) = snd (walkRuns J E n w)
   \<and> fst (generateBestWalk J E n w) =
       (case filter succeeded (fst (walkRuns J E n w)) of
          [] \<Rightarrow> Inl NoWalks
        | r # rs \<Rightarrow> r)"
proof -
  let ?ok = "filter succeeded (fst (walkRuns J E n w))"
  have opt: "walkOptions J E n [] w = (map projr ?ok, snd (walkRuns J E n w))"
    by (simp add: walkOptions_walkRuns)
  show ?thesis
  proof (cases ?ok)
    case Nil
    with opt show ?thesis by (simp add: generateBestWalk_def walkRuns_length)
  next
    case (Cons r rs)
    then have "r \<in> set ?ok" by simp
    then have "succeeded r" by simp
    with opt Cons show ?thesis
      by (simp add: generateBestWalk_def walkRuns_length succeeded_projr)
  qed
qed

theorem generateBestWalk_contract_witness:
  "fst (walkRuns miniJSON scriptedEnv 3 freshWorld)
     = [Inl (Thrown ''timeout''), Inl (MissingField ''highlights''), Inr crownWalk]
   \<and> generateBestWalk miniJSON scriptedEnv 3 freshWorld
     = (Inr crownWalk, freshWorld\<lparr>openaiClient := True, aiCalls := 3\<rparr>)
   \<and> fst (generateBestWalk miniJSON scriptedEnv 2 freshWorld) = Inl NoWalks"
proof -
  have g: "generateWalk miniJSON scriptedEnv 5 (Suc 0) w =
      (if aiCalls w = 0 then Inl (Thrown ''timeout'')
       else if aiCalls w = 1 then Inl (MissingField ''highlights'') else Inr crownWalk,
       w\<lparr>openaiClient := True, aiCalls := Suc (aiCalls w)\<rparr>)" if "logFile w = None" for w
    using that
    by (subst generateWalk.simps)
      (simp add: getUsedPubs_no_log getOpenAIClient_def isSet_def scriptedEnv_def exEnv_def
        formatWalkData_crownData formatWalkData_anchorNoHighlights arrIncludes_Nil)
  have r3: "walkRuns miniJSON scriptedEnv 3 freshWorld
     = ([Inl (Thrown ''timeout''), Inl (MissingField ''highlights''), Inr crownWalk],
        freshWorld\<lparr>openaiClient := True, aiCalls := 3\<rparr>)"
    by (simp add: numeral_3_eq_3 g freshWorld_def)
  have r2: "fst (walkRuns miniJSON scriptedEnv 2 freshWorld)
     = [Inl (Thrown ''timeout''), Inl (MissingField ''highlights'')]"
    by (simp add: numeral_2_eq_2 g freshWorld_def)
  from generateBestWalk_contract[of miniJSON scriptedEnv 3 freshWorld]
    generateBestWalk_contract[of miniJSON scriptedEnv 2 freshWorld] r3 r2
  show ?thesis
    by (simp add: succeeded_def prod_eq_iff)
qed

subsection \<open>A publish failure leaves no log entry\<close>

text \<open>
  C5. In production mode, when the walk and the image have been made and
  \<open>postToInstagram\<close> throws, the run throws that same error, the log is the log from
  before the run and nothing has been published. The append comes only after the publish
  call has returned: a run that changes the log has succeeded and has put one post on
  the platform.
\<close>

theorem publish_failure_not_logged:
  assumes "NODE_ENV E \<noteq> Some ''development''"
    and "generateBestWalk J E 1 w = (Inr wk, w1)"
    and "generateIllustration E wk (fetchWeatherSummary E wk) = Inr img"
    and "postToInstagram E (url img) (localPath img)
           (buildCaption E wk (fetchWeatherSummary E wk)) w1 = (Inl e, w2)"
  shows "publishSundayWalkPost J E w = (Inl e, w2)
    \<and> logFile w2 = logFile w \<and> published w2 = published w
    \<and> (\<forall>w'. logFile (snd (publishSundayWalkPost J E w')) \<noteq> logFile w' \<longrightarrow>
          succeeded (fst (publishSundayWalkPost J E w'))
          \<and> length (published (snd (publishSundayWalkPost J E w'))) = Suc (length (published w')))"
proof -
  from assms have "publishSundayWalkPost J E w = (Inl e, w2)"
    by (simp add: publishSundayWalkPost_def Let_def)
  moreover from assms(4) have "w2 = w1" by (rule postToInstagram_failed)
  moreover have "succeeded (fst (publishSundayWalkPost J E w'))
          \<and> length (published (snd (publishSundayWalkPost J E w'))) = Suc (length (published w'))"
    if "logFile (snd (publishSundayWalkPost J E w')) \<noteq> logFile w'" for w'
    using that
  proof (rule pipeline_log_changed)
    fix wk w1 img result
    assume "generateBestWalk J E 1 w' = (Inr wk, w1)"
      and "publishSundayWalkPost J E w' =
           (Inr \<lparr>success = True, mode = ''production'', r_walk = titleOf wk,
                 r_image = None, postId = post_id result\<rparr>,
            logPost J E wk result (w1\<lparr>published := published w1 @
              [(url img, buildCaption E wk (fetchWeatherSummary E wk))]\<rparr>))"
    then show ?thesis
      by (simp add: succeeded_def logPost_frame generateBestWalk_frame)
  qed
  ultimately show ?thesis
    using generateBestWalk_frame[OF assms(2)] by simp
qed

theorem publish_failure_not_logged_witness:
  "publishSundayWalkPost miniJSON
      (exEnv\<lparr>publishMediaContainer := \<lambda>c. Inl (Thrown ''OAuthException'')\<rparr>) freshWorld
     = (Inl (Thrown ''OAuthException''), freshWorld\<lparr>openaiClient := True, aiCalls := 1\<rparr>)
   \<and> logFile (freshWorld\<lparr>openaiClient := True, aiCalls := 1\<rparr>) = logFile freshWorld"
proof -
  let ?E = "exEnv\<lparr>publishMediaContainer := \<lambda>c. Inl (Thrown ''OAuthException'')\<rparr>"
  let ?w1 = "freshWorld\<lparr>openaiClient := True, aiCalls := 1\<rparr>"
  have m: "NODE_ENV ?E \<noteq> Some ''development''" by (simp add: exEnv_def)
  have g: "generateBestWalk miniJSON ?E 1 freshWorld = (Inr crownWalk, ?w1)"
    using generateBestWalk_crown[of ?E freshWorld miniJSON]
    by (simp add: exEnv_def isSet_def freshWorld_def)
  have i: "generateIllustration ?E crownWalk (fetchWeatherSummary ?E crownWalk)
     = Inr \<lparr>url = ''https://bot/images/w.png'', localPath = ''/generated/w.png''\<rparr>"
    by (simp add: exEnv_def)
  have p: "postToInstagram ?E (url \<lparr>url = ''https://bot/images/w.png'', localPath = ''/generated/w.png''\<rparr>)
      (localPath \<lparr>url = ''https://bot/images/w.png'', localPath = ''/generated/w.png''\<rparr>)
      (buildCaption ?E crownWalk (fetchWeatherSummary ?E crownWalk)) ?w1
     = (Inl (Thrown ''OAuthException''), ?w1)"
    by (simp add: postToInstagram_def exEnv_def isSet_def)
  from publish_failure_not_logged[OF m g i p] show ?thesis by simp
qed

subsection \<open>Development mode never logs\<close>

text \<open>
  C6. In development mode a run leaves the log and the platform as they were, whatever
  happens in it; when the walk, the image and the caption file all succeed, it returns
  the success result of mode \<open>development\<close>.
\<close>

theorem development_never_logs:
  assumes "NODE_ENV E = Some ''development''"
  shows "logFile (snd (publishSundayWalkPost J E w)) = logFile w
    \<and> published (snd (publishSundayWalkPost J E w)) = published w
    \<and> (generateBestWalk J E 1 w = (Inr wk, w1) \<and>
        generateIllustration E wk (fetchWeatherSummary E wk) = Inr img \<and>
        writeCaptionFile E (captionPathOf (localPath img))
          (buildCaption E wk (fetchWeatherSummary E wk)) = None
        \<longrightarrow> fst (publishSundayWalkPost J E w) =
              Inr \<lparr>success = True, mode = ''development'', r_walk = titleOf wk,
                    r_image = Some (localPath img), postId = None\<rparr>)"
proof -
  have "logFile (snd (publishSundayWalkPost J E w)) = logFile w
    \<and> published (snd (publishSundayWalkPost J E w)) = published w"
    using assms
    by (cases rule: pipeline_cases[of J E w]) (simp_all add: generateBestWalk_frame)
  moreover have "fst (publishSundayWalkPost J E w) =
              Inr \<lparr>success = True, mode = ''development'', r_walk = titleOf wk,
                    r_image = Some (localPath img), postId = None\<rparr>"
    if "generateBestWalk J E 1 w = (Inr wk, w1)"
      and "generateIllustration E wk (fetchWeatherSummary E wk) = Inr img"
      and "writeCaptionFile E (captionPathOf (localPath img))
          (buildCaption E wk (fetchWeatherSummary E wk)) = None"
    using that assms by (simp add: publishSundayWalkPost_def Let_def)
  ultimately show ?thesis by blast
qed

theorem development_never_logs_witness:
  "fst (publishSundayWalkPost miniJSON (exEnv\<lparr>NODE_ENV := Some ''development''\<rparr>) freshWorld)
     = Inr \<lparr>success = True, mode = ''development'', r_walk = ''Heath to Hearth'',
            r_image = Some ''/generated/w.png'', postId = None\<rparr>
   \<and> logFile (snd (publishSundayWalkPost miniJSON (exEnv\<lparr>NODE_ENV := Some ''development''\<rparr>)
         freshWorld)) = None
   \<and> published (snd (publishSundayWalkPost miniJSON (exEnv\<lparr>NODE_ENV := Some ''development''\<rparr>)
         freshWorld)) = []"
proof -
  let ?E = "exEnv\<lparr>NODE_ENV := Some ''development''\<rparr>"
  let ?img = "\<lparr>url = ''https://bot/images/w.png'', localPath = ''/generated/w.png''\<rparr>"
  have m: "NODE_ENV ?E = Some ''development''" by simp
  have g: "generateBestWalk miniJSON ?E 1 freshWorld
     = (Inr crownWalk, freshWorld\<lparr>openaiClient := True, aiCalls := Suc (aiCalls freshWorld)\<rparr>)"
    by (rule generateBestWalk_crown) (simp_all add: exEnv_def isSet_def freshWorld_def)
  have i: "generateIllustration ?E crownWalk (fetchWeatherSummary ?E crownWalk) = Inr ?img"
    by (simp add: exEnv_def)
  have c: "writeCaptionFile ?E (captionPathOf (localPath ?img))
          (buildCaption ?E crownWalk (fetchWeatherSummary ?E crownWalk)) = None"
    by (simp add: exEnv_def)
  have t: "titleOf crownWalk = ''Heath to Hearth''"
    by (simp add: titleOf_def crownWalk_def crownData_def)
  from development_never_logs[OF m, of miniJSON freshWorld crownWalk _ ?img] g i c t
  show ?thesis by (simp add: freshWorld_def)
qed

subsection \<open>Appending and reading back\<close>

text \<open>
  C7. With a runtime whose JSON functions do what \<open>codec_ok\<close> says, and no log to start
  with: \<open>getUsedPubs\<close> returns the empty list; and after \<open>logPost\<close> has appended the
  entry of a walk ending at The Crown and then the entry of a walk ending at The Anchor
  (both appends succeeding), a read that succeeds returns those two names and nothing
  else, as a set \<open>{The Crown, The Anchor}\<close>.
\<close>

theorem log_round_trip:
  assumes "codec_ok J"
    and "logFile w = None"
    and "fsWritable E1" and "end_pub_name (data wk1) = Some (JStr ''The Crown'')"
    and "fsWritable E2" and "end_pub_name (data wk2) = Some (JStr ''The Anchor'')"
    and "fsReadable E"
  shows "getUsedPubs J E w = []
    \<and> getUsedPubs J E (logPost J E2 wk2 r2 (logPost J E1 wk1 r1 w))
        = [JStr ''The Crown'', JStr ''The Anchor'']
    \<and> set (getUsedPubs J E (logPost J E2 wk2 r2 (logPost J E1 wk1 r1 w)))
        = {JStr ''The Anchor'', JStr ''The Crown''}"
proof -
  let ?es = "[logEntry E1 wk1 r1, logEntry E2 wk2 r2]"
  from assms(2) have "logFile w = logText J []" by (simp add: logText_def)
  from logPost_logText[OF assms(3) this]
  have "logFile (logPost J E1 wk1 r1 w) = logText J [logEntry E1 wk1 r1]" by simp
  from logPost_logText[OF assms(5) this]
  have l: "logFile (logPost J E2 wk2 r2 (logPost J E1 wk1 r1 w)) = logText J ?es" by simp
  have "list_all flatEntry ?es"
    by (simp add: flatEntry_logEntry[OF assms(4)] flatEntry_logEntry[OF assms(6)])
  from getUsedPubs_logText[OF assms(1) this assms(7) l]
  have "getUsedPubs J E (logPost J E2 wk2 r2 (logPost J E1 wk1 r1 w))
        = [JStr ''The Crown'', JStr ''The Anchor'']"
    using assms(4,6)
    by (simp add: pubNames_def pubProp_logEntry uniq_def setAdd_def)
  moreover from assms(2) have "getUsedPubs J E w = []" by (rule getUsedPubs_no_log)
  ultimately show ?thesis by auto
qed

theorem log_round_trip_witness:
  "getUsedPubs miniJSON exEnv freshWorld = []
   \<and> getUsedPubs miniJSON exEnv
       (logPost miniJSON exEnv
          (crownWalk\<lparr>data := crownData\<lparr>end_pub_name := Some (JStr ''The Anchor'')\<rparr>\<rparr>)
          \<lparr>post_id = Some ''post-2''\<rparr>
          (logPost miniJSON exEnv crownWalk \<lparr>post_id = Some ''post-1''\<rparr> freshWorld))
       = [JStr ''The Crown'', JStr ''The Anchor'']"
proof -
  have "logFile freshWorld = None" "fsWritable exEnv" "fsReadable exEnv"
    "end_pub_name (data crownWalk) = Some (JStr ''The Crown'')"
    "end_pub_name (data (crownWalk\<lparr>data := crownData\<lparr>end_pub_name := Some (JStr ''The Anchor'')\<rparr>\<rparr>))
       = Some (JStr ''The Anchor'')"
    by (simp_all add: freshWorld_def exEnv_def crownWalk_def crownData_def)
  from log_round_trip[OF codec_ok_miniJSON this(1,2,4,2,5,3)] show ?thesis by blast
qed

subsection \<open>Exact-match deduplication\<close>

text \<open>
  C8. Pub names are compared as they are: a name is found in a list of used pubs exactly
  when that very string is an element of it, and an attempt whose reply names the pub
  \<open>p\<close> takes the retry path exactly when \<open>p\<close> is an element of the used pubs read for
  that attempt; otherwise the reply goes on to \<open>formatWalkData\<close>. With The Crown logged,
  a reply ending at \<open>the crown\<close> is accepted, and one ending at \<open>The Crown\<close> is retried.
\<close>

theorem dedup_exact_match:
  assumes "\<not> maxAttempts < attempt"
    and "getOpenAIClient E w = (Inr u, w1)"
    and "ai E (aiCalls w1) (getUsedPubs J E w) = Inr d"
    and "end_pub_name d = Some (JStr p)"
  shows "(arrIncludes S (Some (JStr p)) \<longleftrightarrow> JStr p \<in> set S)
    \<and> generateWalk J E maxAttempts attempt w =
           (if JStr p \<in> set (getUsedPubs J E w)
            then generateWalk J E maxAttempts (attempt + 1) (w1\<lparr>aiCalls := Suc (aiCalls w1)\<rparr>)
            else (formatWalkData E d, w1\<lparr>aiCalls := Suc (aiCalls w1)\<rparr>))"
proof -
  have "generateWalk J E maxAttempts attempt w =
           (if arrIncludes (getUsedPubs J E w) (end_pub_name d)
            then generateWalk J E maxAttempts (attempt + 1) (w1\<lparr>aiCalls := Suc (aiCalls w1)\<rparr>)
            else (formatWalkData E d, w1\<lparr>aiCalls := Suc (aiCalls w1)\<rparr>))"
    using assms(1-3) by (subst generateWalk.simps) (simp add: Let_def)
  with assms(4) show ?thesis by (simp add: arrIncludes_JStr del: arrIncludes.simps)
qed

theorem dedup_exact_match_witness:
  "generateWalk miniJSON (exEnv\<lparr>ai := \<lambda>n used. Inr lowerCrownData\<rparr>) 5 1 crownLogged
     = (Inr \<lparr>walk_id = ''walk-7'', slug = ''heath-to-hearth'', data = lowerCrownData\<rparr>,
        crownLogged\<lparr>openaiClient := True, aiCalls := 1\<rparr>)
   \<and> generateWalk miniJSON exEnv 5 1 crownLogged
     = generateWalk miniJSON exEnv 5 2 (crownLogged\<lparr>openaiClient := True, aiCalls := 1\<rparr>)"
proof -
  let ?L = "exEnv\<lparr>ai := \<lambda>n used. Inr lowerCrownData\<rparr>"
  let ?w1 = "crownLogged\<lparr>openaiClient := True\<rparr>"
  have le: "\<not> (5::nat) < 1" by simp
  have calls: "?w1\<lparr>aiCalls := Suc (aiCalls ?w1)\<rparr> = crownLogged\<lparr>openaiClient := True, aiCalls := 1\<rparr>"
    by (simp add: crownLogged_def freshWorld_def)
  have uL: "getUsedPubs miniJSON ?L crownLogged = [JStr ''The Crown'']"
    by (rule getUsedPubs_crownLogged) (simp_all add: exEnv_def crownLogged_def)
  have uC: "getUsedPubs miniJSON exEnv crownLogged = [JStr ''The Crown'']"
    by (rule getUsedPubs_crownLogged) (simp_all add: exEnv_def crownLogged_def)
  have cL: "getOpenAIClient ?L crownLogged = (Inr (), ?w1)"
    by (simp add: getOpenAIClient_def exEnv_def isSet_def crownLogged_def freshWorld_def)
  have cC: "getOpenAIClient exEnv crownLogged = (Inr (), ?w1)"
    by (simp add: getOpenAIClient_def exEnv_def isSet_def crownLogged_def freshWorld_def)
  have aL: "ai ?L (aiCalls ?w1) (getUsedPubs miniJSON ?L crownLogged) = Inr lowerCrownData"
    by simp
  have aC: "ai exEnv (aiCalls ?w1) (getUsedPubs miniJSON exEnv crownLogged) = Inr crownData"
    by (simp add: exEnv_def)
  have pL: "end_pub_name lowerCrownData = Some (JStr ''the crown'')"
    by (simp add: lowerCrownData_def)
  have pC: "end_pub_name crownData = Some (JStr ''The Crown'')"
    by (simp add: crownData_def)
  have fL: "formatWalkData ?L lowerCrownData
      = Inr \<lparr>walk_id = ''walk-7'', slug = ''heath-to-hearth'', data = lowerCrownData\<rparr>"
    by (simp add: formatWalkData_def lowerCrownData_def crownData_def exEnv_def required_def
        truthyStr_def truthyNum_def truthyObj_def decimal.simps slugify_def stripDash_def
        lowerAscii_def isAlnum_def Let_def char_of_def bit_Suc_0_iff)
  note tL = dedup_exact_match[OF le cL aL pL, THEN conjunct2]
  note tC = dedup_exact_match[OF le cC aC pC, THEN conjunct2]
  have a: "generateWalk miniJSON ?L 5 1 crownLogged
     = (Inr \<lparr>walk_id = ''walk-7'', slug = ''heath-to-hearth'', data = lowerCrownData\<rparr>,
        crownLogged\<lparr>openaiClient := True, aiCalls := 1\<rparr>)"
    by (subst tL, unfold uL fL calls) simp
  have c: "generateWalk miniJSON exEnv 5 1 crownLogged
     = generateWalk miniJSON exEnv 5 2 (crownLogged\<lparr>openaiClient := True, aiCalls := 1\<rparr>)"
    by (subst tC, unfold uC calls) (simp add: numeral_2_eq_2)
  from a c show ?thesis by (rule conjI)
qed

subsection \<open>The mode switch\<close>

text \<open>
  C9. Once the walk and the image are there, the run takes the development path exactly
  when \<open>NODE_ENV\<close> is the string \<open>development\<close>: then nothing is published, the log
  stays, and a result is of mode \<open>development\<close>. For every other value, unset and
  empty included, the run is what \<open>postToInstagram\<close> followed by \<open>logPost\<close> make of
  it: with credentials set, both platform calls succeeding and the log writable, the
  post is published, the entry is appended to the log and the result is of mode
  \<open>production\<close>.
\<close>

theorem mode_switch:
  assumes "generateBestWalk J E 1 w = (Inr wk, w1)"
    and "generateIllustration E wk (fetchWeatherSummary E wk) = Inr img"
    and "caption = buildCaption E wk (fetchWeatherSummary E wk)"
  shows "(NODE_ENV E = Some ''development'' \<longrightarrow>
            published (snd (publishSundayWalkPost J E w)) = published w
            \<and> logFile (snd (publishSundayWalkPost J E w)) = logFile w
            \<and> (\<forall>r. fst (publishSundayWalkPost J E w) = Inr r \<longrightarrow> mode r = ''development''))
    \<and> (NODE_ENV E \<noteq> Some ''development'' \<longrightarrow>
          publishSundayWalkPost J E w =
            (case postToInstagram E (url img) (localPath img) caption w1 of
               (Inl e, w2) \<Rightarrow> (Inl e, w2)
             | (Inr result, w2) \<Rightarrow>
                 (Inr \<lparr>success = True, mode = ''production'', r_walk = titleOf wk,
                       r_image = None, postId = post_id result\<rparr>,
                  logPost J E wk result w2))
          \<and> (isSet (INSTAGRAM_ACCESS_TOKEN E) \<and> isSet (INSTAGRAM_ACCOUNT_ID E) \<and>
              createMediaContainer E (url img) caption = Inr containerId \<and>
              publishMediaContainer E containerId = Inr result \<and> fsWritable E
              \<longrightarrow> fst (publishSundayWalkPost J E w) =
                    Inr \<lparr>success = True, mode = ''production'', r_walk = titleOf wk,
                          r_image = None, postId = post_id result\<rparr>
                  \<and> published (snd (publishSundayWalkPost J E w))
                      = published w @ [(url img, caption)]
                  \<and> logFile (snd (publishSundayWalkPost J E w))
                      = appendFile (logFile w)
                          (JSON_stringify J (logEntry E wk result) @ [newline])))"
proof -
  note fr = generateBestWalk_frame[OF assms(1)]
  have dev: "published (snd (publishSundayWalkPost J E w)) = published w
            \<and> logFile (snd (publishSundayWalkPost J E w)) = logFile w
            \<and> (\<forall>r. fst (publishSundayWalkPost J E w) = Inr r \<longrightarrow> mode r = ''development'')"
    if "NODE_ENV E = Some ''development''"
    using that assms fr
    by (auto simp: publishSundayWalkPost_def Let_def split: option.splits)
  have prod: "publishSundayWalkPost J E w =
            (case postToInstagram E (url img) (localPath img) caption w1 of
               (Inl e, w2) \<Rightarrow> (Inl e, w2)
             | (Inr result, w2) \<Rightarrow>
                 (Inr \<lparr>success = True, mode = ''production'', r_walk = titleOf wk,
                       r_image = None, postId = post_id result\<rparr>,
                  logPost J E wk result w2))"
    if "NODE_ENV E \<noteq> Some ''development''"
    using that assms
    by (simp add: publishSundayWalkPost_def Let_def split: prod.splits sum.splits)
  have live: "fst (publishSundayWalkPost J E w) =
                    Inr \<lparr>success = True, mode = ''production'', r_walk = titleOf wk,
                          r_image = None, postId = post_id result\<rparr>
                  \<and> published (snd (publishSundayWalkPost J E w))
                      = published w @ [(url img, caption)]
                  \<and> logFile (snd (publishSundayWalkPost J E w))
                      = appendFile (logFile w)
                          (JSON_stringify J (logEntry E wk result) @ [newline])"
    if "NODE_ENV E \<noteq> Some ''development''"
      and "isSet (INSTAGRAM_ACCESS_TOKEN E)" and "isSet (INSTAGRAM_ACCOUNT_ID E)"
      and "createMediaContainer E (url img) caption = Inr containerId"
      and "publishMediaContainer E containerId = Inr result" and "fsWritable E"
  proof -
    from that have "postToInstagram E (url img) (localPath img) caption w1
        = (Inr result, w1\<lparr>published := published w1 @ [(url img, caption)]\<rparr>)"
      by (simp add: postToInstagram_def)
    with prod[OF that(1)] that(6) fr show ?thesis
      by (simp add: logPost_frame)
  qed
  from dev prod live show ?thesis by blast
qed

theorem mode_switch_witness:
  "map (\<lambda>x. published (snd (publishSundayWalkPost miniJSON (exEnv\<lparr>NODE_ENV := x\<rparr>) freshWorld)))
       [None, Some [], Some ''dev'', Some ''Development'', Some ''development'']
     = [[(''https://bot/images/w.png'', ''SUNDAY PUB WALK'')],
        [(''https://bot/images/w.png'', ''SUNDAY PUB WALK'')],
        [(''https://bot/images/w.png'', ''SUNDAY PUB WALK'')],
        [(''https://bot/images/w.png'', ''SUNDAY PUB WALK'')],
        []]
   \<and> map (\<lambda>x. logFile (snd (publishSundayWalkPost miniJSON (exEnv\<lparr>NODE_ENV := x\<rparr>) freshWorld)))
       [None, Some [], Some ''dev'', Some ''Development'', Some ''development'']
     = [logText miniJSON [logEntry exEnv crownWalk \<lparr>post_id = Some ''post-1''\<rparr>],
        logText miniJSON [logEntry exEnv crownWalk \<lparr>post_id = Some ''post-1''\<rparr>],
        logText miniJSON [logEntry exEnv crownWalk \<lparr>post_id = Some ''post-1''\<rparr>],
        logText miniJSON [logEntry exEnv crownWalk \<lparr>post_id = Some ''post-1''\<rparr>],
        None]"
proof -
  let ?img = "\<lparr>url = ''https://bot/images/w.png'', localPath = ''/generated/w.png''\<rparr>"
  let ?res = "\<lparr>post_id = Some ''post-1''\<rparr>"
  have g: "generateBestWalk miniJSON (exEnv\<lparr>NODE_ENV := x\<rparr>) 1 freshWorld
     = (Inr crownWalk, freshWorld\<lparr>openaiClient := True, aiCalls := Suc (aiCalls freshWorld)\<rparr>)"
    for x
    by (rule generateBestWalk_crown) (simp_all add: exEnv_def isSet_def freshWorld_def)
  have i: "generateIllustration (exEnv\<lparr>NODE_ENV := x\<rparr>) crownWalk
             (fetchWeatherSummary (exEnv\<lparr>NODE_ENV := x\<rparr>) crownWalk) = Inr ?img" for x
    by (simp add: exEnv_def)
  have c: "''SUNDAY PUB WALK'' = buildCaption (exEnv\<lparr>NODE_ENV := x\<rparr>) crownWalk
             (fetchWeatherSummary (exEnv\<lparr>NODE_ENV := x\<rparr>) crownWalk)" for x
    by (simp add: exEnv_def)
  note t = mode_switch[OF g i c, of _ "''container-1''" ?res]
  have e: "logEntry (exEnv\<lparr>NODE_ENV := x\<rparr>) crownWalk ?res = logEntry exEnv crownWalk ?res" for x
    by (simp add: logEntry_def exEnv_def)
  have prod: "published (snd (publishSundayWalkPost miniJSON (exEnv\<lparr>NODE_ENV := x\<rparr>) freshWorld))
        = [(''https://bot/images/w.png'', ''SUNDAY PUB WALK'')]
      \<and> logFile (snd (publishSundayWalkPost miniJSON (exEnv\<lparr>NODE_ENV := x\<rparr>) freshWorld))
        = logText miniJSON [logEntry exEnv crownWalk ?res]"
    if "x \<noteq> Some ''development''" for x
  proof -
    let ?E = "exEnv\<lparr>NODE_ENV := x\<rparr>"
    have h: "NODE_ENV ?E \<noteq> Some ''development''"
      "isSet (INSTAGRAM_ACCESS_TOKEN ?E)" "isSet (INSTAGRAM_ACCOUNT_ID ?E)"
      "createMediaContainer ?E (url ?img) ''SUNDAY PUB WALK'' = Inr ''container-1''"
      "publishMediaContainer ?E ''container-1'' = Inr ?res" "fsWritable ?E"
      using that by (simp_all add: exEnv_def isSet_def)
    from t[of x] h
    have "published (snd (publishSundayWalkPost miniJSON ?E freshWorld))
            = published freshWorld @ [(url ?img, ''SUNDAY PUB WALK'')]
        \<and> logFile (snd (publishSundayWalkPost miniJSON ?E freshWorld))
            = appendFile (logFile freshWorld)
                (JSON_stringify miniJSON (logEntry ?E crownWalk ?res) @ [newline])"
      by blast
    then show ?thesis
      unfolding e by (simp add: freshWorld_def appendFile_def logText_def)
  qed
  have dev: "published (snd (publishSundayWalkPost miniJSON (exEnv\<lparr>NODE_ENV := Some ''development''\<rparr>) freshWorld))
        = []
      \<and> logFile (snd (publishSundayWalkPost miniJSON (exEnv\<lparr>NODE_ENV := Some ''development''\<rparr>) freshWorld))
        = None"
    using t[of "Some ''development''"] by (simp add: freshWorld_def)
  from prod[of None] prod[of "Some []"] prod[of "Some ''dev''"] prod[of "Some ''Development''"] dev
  show ?thesis by simp
qed

subsection \<open>Failures of the log read\<close>

text \<open>
  C10. The used-pub read never throws. The body of its \<open>try\<close> block throws exactly
  when the log is missing, when reading it fails, or when one of its lines does not
  parse or parses to \<open>null\<close>; on every such failure \<open>getUsedPubs\<close> returns the empty
  list, so no candidate is found among the used pubs. Deduplication is off for that
  attempt and the attempt does not fail for it: whatever the AI model replies goes on
  to \<open>formatWalkData\<close> without a retry.
\<close>

theorem getUsedPubs_never_throws:
  "(isl (readUsedPubs J E w) \<longleftrightarrow>
      (case logFile w of
         None \<Rightarrow> True
       | Some content \<Rightarrow>
           \<not> fsReadable E \<or>
           list_ex (\<lambda>l. JSON_parse J l = None \<or> JSON_parse J l = Some JNull)
             (split_nl (trim content))))
   \<and> (isl (readUsedPubs J E w) \<longrightarrow>
        getUsedPubs J E w = [] \<and> \<not> arrIncludes (getUsedPubs J E w) candidate
        \<and> (\<not> maxAttempts < attempt \<and> getOpenAIClient E w = (Inr u, w1)
             \<and> ai E (aiCalls w1) [] = Inr d
            \<longrightarrow> generateWalk J E maxAttempts attempt w
                  = (formatWalkData E d, w1\<lparr>aiCalls := Suc (aiCalls w1)\<rparr>)))"
proof -
  have e: "getUsedPubs J E w = []" if "isl (readUsedPubs J E w)"
    using that by (cases "readUsedPubs J E w") (simp_all add: getUsedPubs_def)
  have n: "\<not> arrIncludes [] c" for c by (cases c) simp_all
  have g: "generateWalk J E maxAttempts attempt w
                  = (formatWalkData E d, w1\<lparr>aiCalls := Suc (aiCalls w1)\<rparr>)"
    if "isl (readUsedPubs J E w)" and "\<not> maxAttempts < attempt"
      and "getOpenAIClient E w = (Inr u, w1)" and "ai E (aiCalls w1) [] = Inr d"
    using that(2-4) e[OF that(1)] n
    by (subst generateWalk.simps) (simp add: Let_def del: arrIncludes.simps)
  from e n g show ?thesis using readUsedPubs_throws[of J E w] by auto
qed

theorem getUsedPubs_never_throws_witness:
  "getUsedPubs miniJSON (exEnv\<lparr>fsReadable := False\<rparr>) crownLogged = []
   \<and> getUsedPubs miniJSON exEnv garbledLog = []
   \<and> getUsedPubs miniJSON exEnv freshWorld = []
   \<and> generateWalk miniJSON exEnv 5 1 garbledLog
       = (Inr crownWalk, garbledLog\<lparr>openaiClient := True, aiCalls := 1\<rparr>)"
proof -
  have a: "isl (readUsedPubs miniJSON (exEnv\<lparr>fsReadable := False\<rparr>) crownLogged)"
    using getUsedPubs_never_throws[of miniJSON "exEnv\<lparr>fsReadable := False\<rparr>" crownLogged]
    by (simp add: crownLogged_def freshWorld_def logText_def)
  have c: "isl (readUsedPubs miniJSON exEnv freshWorld)"
    using getUsedPubs_never_throws[of miniJSON exEnv freshWorld]
    by (simp add: freshWorld_def)
  have fl: "flatEntry crownEntry"
    by (simp add: crownEntry_def flatEntry_def flatValue_def plainKey_def)
  have "cleanLine ''{oops''"
    by (simp add: cleanLine_def newline_def whiteSpace_def startsWith_def)
  with miniStringify_clean[OF fl]
  have "split_nl (trim (concat (map (\<lambda>l. l @ [newline]) [miniStringify crownEntry, ''{oops''])))
        = [miniStringify crownEntry, ''{oops'']"
    by (intro lines_of_log) simp_all
  moreover have "miniParse ''{oops'' = None"
    by (simp add: miniParse_def dquote_def)
  ultimately have b: "isl (readUsedPubs miniJSON exEnv garbledLog)"
    using getUsedPubs_never_throws[of miniJSON exEnv garbledLog]
    by (simp add: garbledLog_def freshWorld_def miniJSON_def)
  have le: "\<not> (5::nat) < 1" by simp
  have cl: "getOpenAIClient exEnv garbledLog = (Inr (), garbledLog\<lparr>openaiClient := True\<rparr>)"
    by (simp add: getOpenAIClient_def exEnv_def isSet_def garbledLog_def freshWorld_def)
  have ai: "ai exEnv (aiCalls (garbledLog\<lparr>openaiClient := True\<rparr>)) [] = Inr crownData"
    by (simp add: exEnv_def)
  have f: "formatWalkData exEnv crownData = Inr crownWalk"
    by (rule formatWalkData_crownData) (simp add: exEnv_def)
  have calls: "garbledLog\<lparr>openaiClient := True,
      aiCalls := Suc (aiCalls (garbledLog\<lparr>openaiClient := True\<rparr>))\<rparr>
      = garbledLog\<lparr>openaiClient := True, aiCalls := 1\<rparr>"
    by (simp add: garbledLog_def freshWorld_def)
  note off = getUsedPubs_never_throws[THEN conjunct2, THEN mp]
  have g: "generateWalk miniJSON exEnv 5 1 garbledLog
       = (Inr crownWalk, garbledLog\<lparr>openaiClient := True, aiCalls := 1\<rparr>)"
    using off[OF b, THEN conjunct2, THEN conjunct2, THEN mp, OF conjI[OF le conjI[OF cl ai]]]
    unfolding f calls .
  from off[OF a, THEN conjunct1] off[OF b, THEN conjunct1] off[OF c, THEN conjunct1] g
  show ?thesis by (intro conjI)
qed

end
